theory Spec2Isabelle
  imports Main "HOL-Library.Sublist"
begin

section \<open>Characters and strings of the source language\<close>

text \<open>
  A Python \<open>str\<close> is modelled as a \<open>string\<close> whose characters are the code points
  below 256.  The character classes below are those of Python's \<open>re\<close> module (Unicode
  mode) and of \<open>str.isspace\<close>, \<open>str.lower\<close> restricted to that range.
\<close>

definition whitespace :: string where
  "whitespace = [
      CHR 0x09, CHR 0x0A, CHR 0x0B, CHR 0x0C, CHR 0x0D, CHR 0x1C, CHR 0x1D, CHR 0x1E,
      CHR 0x1F, CHR 0x20, CHR 0x85, CHR 0xA0]"

definition isspace :: "char \<Rightarrow> bool" where
  "isspace c = (c \<in> set whitespace)"

definition isdigit :: "char \<Rightarrow> bool" where
  "isdigit c = (c \<in> set ''0123456789'')"

text \<open>
  \<open>\w\<close>: the ASCII letters, digits and underscore, and the letters and numeric
  characters of the upper half (\<open>str.isalnum\<close>).
\<close>

definition word_chars_upper_half :: string where
  "word_chars_upper_half = [
      CHR 0xAA, CHR 0xB2, CHR 0xB3, CHR 0xB5, CHR 0xB9, CHR 0xBA, CHR 0xBC, CHR 0xBD,
      CHR 0xBE, CHR 0xC0, CHR 0xC1, CHR 0xC2, CHR 0xC3, CHR 0xC4, CHR 0xC5, CHR 0xC6,
      CHR 0xC7, CHR 0xC8, CHR 0xC9, CHR 0xCA, CHR 0xCB, CHR 0xCC, CHR 0xCD, CHR 0xCE,
      CHR 0xCF, CHR 0xD0, CHR 0xD1, CHR 0xD2, CHR 0xD3, CHR 0xD4, CHR 0xD5, CHR 0xD6,
      CHR 0xD8, CHR 0xD9, CHR 0xDA, CHR 0xDB, CHR 0xDC, CHR 0xDD, CHR 0xDE, CHR 0xDF,
      CHR 0xE0, CHR 0xE1, CHR 0xE2, CHR 0xE3, CHR 0xE4, CHR 0xE5, CHR 0xE6, CHR 0xE7,
      CHR 0xE8, CHR 0xE9, CHR 0xEA, CHR 0xEB, CHR 0xEC, CHR 0xED, CHR 0xEE, CHR 0xEF,
      CHR 0xF0, CHR 0xF1, CHR 0xF2, CHR 0xF3, CHR 0xF4, CHR 0xF5, CHR 0xF6, CHR 0xF8,
      CHR 0xF9, CHR 0xFA, CHR 0xFB, CHR 0xFC, CHR 0xFD, CHR 0xFE, CHR 0xFF]"

definition isword :: "char \<Rightarrow> bool" where
  "isword c = (c \<in> set (''abcdefghijklmnopqrstuvwxyzABCDEFGHIJKLMNOPQRSTUVWXYZ0123456789_'' @
                        word_chars_upper_half))"

text \<open>\<open>str.lower\<close>: the table of the characters that have a lower-case form.\<close>

definition lower_table :: "(char \<times> char) list" where
  "lower_table =
     zip ''ABCDEFGHIJKLMNOPQRSTUVWXYZ'' ''abcdefghijklmnopqrstuvwxyz'' @
     zip [
      CHR 0xC0, CHR 0xC1, CHR 0xC2, CHR 0xC3, CHR 0xC4, CHR 0xC5, CHR 0xC6, CHR 0xC7,
      CHR 0xC8, CHR 0xC9, CHR 0xCA, CHR 0xCB, CHR 0xCC, CHR 0xCD, CHR 0xCE, CHR 0xCF,
      CHR 0xD0, CHR 0xD1, CHR 0xD2, CHR 0xD3, CHR 0xD4, CHR 0xD5, CHR 0xD6, CHR 0xD8,
      CHR 0xD9, CHR 0xDA, CHR 0xDB, CHR 0xDC, CHR 0xDD, CHR 0xDE]
         [
      CHR 0xE0, CHR 0xE1, CHR 0xE2, CHR 0xE3, CHR 0xE4, CHR 0xE5, CHR 0xE6, CHR 0xE7,
      CHR 0xE8, CHR 0xE9, CHR 0xEA, CHR 0xEB, CHR 0xEC, CHR 0xED, CHR 0xEE, CHR 0xEF,
      CHR 0xF0, CHR 0xF1, CHR 0xF2, CHR 0xF3, CHR 0xF4, CHR 0xF5, CHR 0xF6, CHR 0xF8,
      CHR 0xF9, CHR 0xFA, CHR 0xFB, CHR 0xFC, CHR 0xFD, CHR 0xFE]"

definition lower_char :: "char \<Rightarrow> char" where
  "lower_char c = (case map_of lower_table c of Some l \<Rightarrow> l | None \<Rightarrow> c)"

definition lower :: "string \<Rightarrow> string" where
  "lower s = map lower_char s"

text \<open>\<open>s.strip()\<close>: leading and trailing whitespace removed.\<close>

definition strip :: "string \<Rightarrow> string" where
  "strip s = rev (dropWhile isspace (rev (dropWhile isspace s)))"

text \<open>\<open>sep.join(xs)\<close>.\<close>

fun join :: "string \<Rightarrow> string list \<Rightarrow> string" where
  "join sep [] = []"
| "join sep [x] = x"
| "join sep (x # y # ys) = x @ sep @ join sep (y # ys)"

text \<open>\<open>s.endswith(suf)\<close>.\<close>

definition endswith :: "string \<Rightarrow> string \<Rightarrow> bool" where
  "endswith s suf = (length suf \<le> length s \<and> drop (length s - length suf) s = suf)"

text \<open>\<open>str(n)\<close> for an integer: decimal digits, with a sign for negative numbers.\<close>

fun str_nat :: "nat \<Rightarrow> string" where
  "str_nat n = (if n < 10 then [''0123456789'' ! n]
                else str_nat (n div 10) @ [''0123456789'' ! (n mod 10)])"

declare str_nat.simps [simp del]

definition str :: "int \<Rightarrow> string" where
  "str i = (if i < 0 then CHR ''-'' # str_nat (nat (- i)) else str_nat (nat i))"

section \<open>The regular expressions of the translator\<close>

text \<open>
  An anchored matcher takes the text from the current position to the end and returns
  what the pattern yields there, or \<open>None\<close>.  None of the source's patterns looks behind
  the current position, so the remaining text decides a match.  \<open>re_search\<close> is
  \<open>pattern.search\<close>: the leftmost position where the anchored matcher succeeds, with
  that position.
\<close>

fun re_search :: "(string \<Rightarrow> 'a option) \<Rightarrow> string \<Rightarrow> (nat \<times> 'a) option" where
  "re_search m [] = map_option (Pair 0) (m [])"
| "re_search m (c # cs) =
     (case m (c # cs) of
        Some r \<Rightarrow> Some (0, r)
      | None \<Rightarrow> map_option (\<lambda>(i, r). (Suc i, r)) (re_search m cs))"

text \<open>
  A literal under \<open>re.IGNORECASE\<close>, character by character (for the letters of the
  source's patterns, all ASCII, a character matches when its lower-case form is that of
  the pattern's character), and a case-sensitive literal.
\<close>

fun starts_ci :: "string \<Rightarrow> string \<Rightarrow> bool" where
  "starts_ci [] s = True"
| "starts_ci (p # ps) [] = False"
| "starts_ci (p # ps) (c # cs) = (if lower_char c = lower_char p then starts_ci ps cs else False)"

definition starts_with :: "string \<Rightarrow> string \<Rightarrow> bool" where
  "starts_with p s = (length p \<le> length s \<and> take (length p) s = p)"

text \<open>
  \<open>kw\s+\<close> (ignoring case): the length of the match.  \<open>\s+\<close> is greedy and nothing
  follows it, so it takes the whole run of whitespace.
\<close>

definition kw_ws :: "string \<Rightarrow> string \<Rightarrow> nat option" where
  "kw_ws kw s =
     (if starts_ci kw s then
        (let ws = takeWhile isspace (drop (length kw) s) in
         if ws = [] then None else Some (length kw + length ws))
      else None)"

text \<open>
  \<open>kw1\s+kw2\s+\<close> (ignoring case), for \<open>GROUP\s+BY\s+\<close> and \<open>ORDER\s+BY\s+\<close>.  The
  first \<open>\s+\<close> cannot give whitespace back to let the second keyword match, since the
  keyword starts with a letter.
\<close>

definition kw_ws_kw_ws :: "string \<Rightarrow> string \<Rightarrow> string \<Rightarrow> nat option" where
  "kw_ws_kw_ws kw1 kw2 s =
     (case kw_ws kw1 s of
        None \<Rightarrow> None
      | Some n \<Rightarrow> (case kw_ws kw2 (drop n s) of None \<Rightarrow> None | Some k \<Rightarrow> Some (n + k)))"

text \<open>
  \<open>(kw\s+)(C+)\s*\<close> (ignoring case) for a character class \<open>C\<close> disjoint from
  whitespace (\<open>\w\<close> for the table, \<open>\d\<close> for the limit): group 2 and the length of
  the whole match.  All three repetitions are greedy, and since \<open>C\<close> and \<open>\s\<close> are
  disjoint none of them can succeed after giving characters back.
\<close>

definition kw_ws_run :: "string \<Rightarrow> (char \<Rightarrow> bool) \<Rightarrow> string \<Rightarrow> (string \<times> nat) option" where
  "kw_ws_run kw C s =
     (if starts_ci kw s then
        (let r1 = drop (length kw) s;
             ws = takeWhile isspace r1;
             r2 = dropWhile isspace r1;
             w = takeWhile C r2;
             ws2 = takeWhile isspace (dropWhile C r2)
         in if ws = [] \<or> w = [] then None
            else Some (w, length kw + length ws + length w + length ws2))
      else None)"

text \<open>
  \<open>(.*?)K\<close> where \<open>K\<close> ends the pattern: the lazy \<open>.*?\<close> tries \<open>K\<close> at the
  current position first and otherwise consumes one character that is not a newline.
  The result is the length of group 1 with what \<open>K\<close> yields.
\<close>

fun lazy_dot :: "(string \<Rightarrow> 'a option) \<Rightarrow> string \<Rightarrow> (nat \<times> 'a) option" where
  "lazy_dot k [] = map_option (Pair 0) (k [])"
| "lazy_dot k (c # cs) =
     (case k (c # cs) of
        Some r \<Rightarrow> Some (0, r)
      | None \<Rightarrow> if c = CHR 0x0A then None
                else map_option (\<lambda>(n, r). (Suc n, r)) (lazy_dot k cs))"

text \<open>
  The alternation \<open>(KW1|KW2|...|$)\<close> that ends a clause, ignoring case.  Without
  \<open>re.MULTILINE\<close>, \<open>$\<close> matches at the end of the text and before a newline that is
  its last character.
\<close>

definition stop_at :: "string list \<Rightarrow> string \<Rightarrow> unit option" where
  "stop_at kws s =
     (if (\<exists>kw \<in> set kws. starts_ci kw s) \<or> s = [] \<or> s = [CHR 0x0A] then Some () else None)"

text \<open>
  The aggregate detector \<open>(count\(|avg\(|count_distinct\(|min\(|max\(|sum\()\<close>, ignoring
  case.
\<close>

definition aggregate_at :: "string \<Rightarrow> unit option" where
  "aggregate_at s =
     (if \<exists>p \<in> set [''count('', ''avg('', ''count_distinct('', ''min('', ''max('', ''sum(''].
           starts_ci p s
      then Some () else None)"

text \<open>
  The field pattern \<open>\s*(\*|[\w\d_\.]+(\(.*?\)){0,1})\s*\<close>: group 1 and the length of
  the match.  The optional group \<open>(\(.*?\))\<close> is an opening parenthesis, the shortest
  run without a newline, and a closing parenthesis; when there is none the group matches
  nothing.  The leading \<open>\s*\<close> cannot give whitespace back to let group 1 match, since
  group 1 starts with no whitespace character.
\<close>

definition fieldchar :: "char \<Rightarrow> bool" where
  "fieldchar c = (isword c \<or> isdigit c \<or> c = CHR ''_'' \<or> c = CHR ''.'')"

definition paren_group :: "string \<Rightarrow> string" where
  "paren_group s =
     (case s of
        [] \<Rightarrow> []
      | c # cs \<Rightarrow>
          if c = CHR ''('' then
            (let body = takeWhile (\<lambda>x. x \<noteq> CHR '')'' \<and> x \<noteq> CHR 0x0A) cs in
             case dropWhile (\<lambda>x. x \<noteq> CHR '')'' \<and> x \<noteq> CHR 0x0A) cs of
               [] \<Rightarrow> []
             | d # _ \<Rightarrow> if d = CHR '')'' then CHR ''('' # body @ [CHR '')''] else [])
          else [])"

definition field_at :: "string \<Rightarrow> (string \<times> nat) option" where
  "field_at s =
     (let ws = takeWhile isspace s; r = dropWhile isspace s in
      case r of
        [] \<Rightarrow> None
      | c # cs \<Rightarrow>
          if c = CHR ''*'' then Some (''*'', length ws + 1 + length (takeWhile isspace cs))
          else
            (let w = takeWhile fieldchar r; r1 = dropWhile fieldchar r in
             if w = [] then None
             else
               (let g = w @ paren_group r1;
                    r2 = drop (length (paren_group r1)) r1
                in Some (g, length ws + length g + length (takeWhile isspace r2)))))"

lemma field_at_pos: "field_at s = Some (g, n) \<Longrightarrow> 0 < n"
  by (auto simp: field_at_def Let_def split: list.splits if_splits)

text \<open>
  \<open>re.findall\<close> with the field pattern, keeping group 1 of every match
  (\<open>[m[0] for m in match]\<close>): matches are taken from left to right, each search
  starting where the previous match ended.
\<close>

function findall_fields :: "string \<Rightarrow> string list" where
  "findall_fields s =
     (if s = [] then []
      else case field_at s of
             Some (g, n) \<Rightarrow> g # findall_fields (drop n s)
           | None \<Rightarrow> findall_fields (tl s))"
  by pat_completeness auto
termination
  by (relation "measure length") (auto dest: field_at_pos)

declare findall_fields.simps [simp del]

text \<open>
  \<open>re.sub(pattern, repl, s)\<close> for a pattern that matches no empty string, and
  \<open>s.replace(old, new)\<close> for a non-empty \<open>old\<close>: matches are replaced from left to
  right, the scan going on after each match.  The matcher gives the length of the match
  at the current position.
\<close>

function re_sub :: "(string \<Rightarrow> nat option) \<Rightarrow> string \<Rightarrow> string \<Rightarrow> string" where
  "re_sub m r [] = []"
| "re_sub m r (c # cs) =
     (case m (c # cs) of
        Some (Suc n) \<Rightarrow> r @ re_sub m r (drop n cs)
      | _ \<Rightarrow> c # re_sub m r cs)"
  by pat_completeness auto
termination
  by (relation "measure (\<lambda>(m, r, s). length s)") auto

definition literal :: "string \<Rightarrow> string \<Rightarrow> nat option" where
  "literal old s = (if starts_with old s then Some (length old) else None)"

definition replace :: "string \<Rightarrow> string \<Rightarrow> string \<Rightarrow> string" where
  "replace old new s = re_sub (literal old) new s"

text \<open>
  \<open>op\s*NAME\<close> for \<open><=\s*THIS_MONTH_END\<close> and \<open>>=\s*THIS_MONTH_START\<close> (case
  matters here: \<open>re.sub\<close> is called without flags).
\<close>

definition op_ws_lit :: "string \<Rightarrow> string \<Rightarrow> string \<Rightarrow> nat option" where
  "op_ws_lit op name s =
     (if starts_with op s then
        (let r = drop (length op) s;
             ws = takeWhile isspace r;
             r1 = dropWhile isspace r
         in if starts_with name r1 then Some (length op + length ws + length name) else None)
      else None)"

text \<open>
  \<open>op\s*FN\(TODAY(\(\))?\)\<close> for \<open><=\s*LAST_DAY\(TODAY(\(\))?\)\<close> and
  \<open>>=\s*FIRST_DAY\(TODAY(\(\))?\)\<close>: the optional \<open>()\<close> is tried first, and skipped
  when the closing parenthesis does not follow it.
\<close>

definition op_ws_day :: "string \<Rightarrow> string \<Rightarrow> string \<Rightarrow> nat option" where
  "op_ws_day op fn s =
     (case op_ws_lit op (fn @ ''(TODAY'') s of
        None \<Rightarrow> None
      | Some n \<Rightarrow>
          if starts_with ''())'' (drop n s) then Some (n + 3)
          else if starts_with '')'' (drop n s) then Some (n + 1)
          else None)"

text \<open>
  \<open>\d{1,2}\<close>, greedy: the number of digits taken.  In the date pattern a hyphen or a
  quote must follow, so giving the second digit back never helps.
\<close>

definition digits12 :: "string \<Rightarrow> nat option" where
  "digits12 s =
     (case s of
        [] \<Rightarrow> None
      | a # r \<Rightarrow>
          if isdigit a then
            (case r of [] \<Rightarrow> Some 1 | b # _ \<Rightarrow> if isdigit b then Some 2 else Some 1)
          else None)"

text \<open>\<open>pat_date1 = '\d\d\d\d-\d{1,2}-\d{1,2}'\<close>: the length of the match.\<close>

definition pat_date1 :: "string \<Rightarrow> nat option" where
  "pat_date1 s =
     (case s of
        q # y1 # y2 # y3 # y4 # h # r \<Rightarrow>
          if q = CHR 0x27 \<and> isdigit y1 \<and> isdigit y2 \<and> isdigit y3 \<and> isdigit y4 \<and> h = CHR ''-'' then
            (case digits12 r of
               None \<Rightarrow> None
             | Some a \<Rightarrow>
                 if starts_with ''-'' (drop a r) then
                   (case digits12 (drop (a + 1) r) of
                      None \<Rightarrow> None
                    | Some b \<Rightarrow>
                        if starts_with [CHR 0x27] (drop (a + 1 + b) r)
                        then Some (6 + a + 1 + b + 1) else None)
                 else None)
          else None
      | _ \<Rightarrow> None)"

section \<open>Part 1: parsing the SQL statement\<close>

text \<open>
  Every \<open>match.end(..)\<close> or \<open>match.group(..)\<close> on a failed search raises
  \<open>AttributeError\<close> (\<open>match\<close> is \<open>None\<close>); this is the only exception of the function.
\<close>

datatype error = AttributeError

text \<open>
  An optional clause (\<open>WHERE\<close>, \<open>GROUP BY\<close>, \<open>ORDER BY\<close>): when the keyword is found,
  the text after it is cut at \<open>match.end(1)\<close> of \<open>(.*?)(STOP1|...|$)\<close>; the clause is
  the stripped text before the cut.  The result is the clause and the text left.
\<close>

definition clause ::
  "(string \<Rightarrow> nat option) \<Rightarrow> string list \<Rightarrow> string \<Rightarrow> error + (string option \<times> string)" where
  "clause kw stops sql =
     (case re_search kw sql of
        None \<Rightarrow> Inr (None, sql)
      | Some (i, n) \<Rightarrow>
          (let sql1 = drop (i + n) sql in
           case re_search (lazy_dot (stop_at stops)) sql1 of
             None \<Rightarrow> Inl AttributeError
           | Some (j, k, _) \<Rightarrow> Inr (Some (strip (take (j + k) sql1)), drop (j + k) sql1)))"

record clauses =
  c_fields :: string
  c_list_fields :: "string list"
  c_aggregate :: bool
  c_table :: string
  c_where :: "string option"
  c_groupby :: "string option"
  c_orderby :: "string option"
  c_sql :: string

text \<open>
  Lines 48 to 108 of the source: the clauses, and in \<open>c_sql\<close> the text left for the
  \<open>LIMIT\<close> pattern.
\<close>

definition parse_sql :: "string \<Rightarrow> error + clauses" where
  "parse_sql sql =
     (case re_search (kw_ws ''select'') sql of
        None \<Rightarrow> Inl AttributeError
      | Some (i, n) \<Rightarrow>
     (let sql1 = drop (i + n) sql in
      case re_search (lazy_dot (kw_ws ''from'')) sql1 of
        None \<Rightarrow> Inl AttributeError
      | Some (j, k, _) \<Rightarrow>
     (let fields = strip (take (j + k) sql1);
          sql2 = drop (j + k) sql1;
          list_fields = findall_fields fields;
          aggregate = (re_search aggregate_at fields \<noteq> None)
      in
      case re_search (kw_ws_run ''FROM'' isword) sql2 of
        None \<Rightarrow> Inl AttributeError
      | Some (i3, table, n3) \<Rightarrow>
     (let sql3 = drop (i3 + n3) sql2 in
      case clause (kw_ws ''WHERE'') [''GROUP'', ''ORDER'', ''LIMIT''] sql3 of
        Inl e \<Rightarrow> Inl e
      | Inr (wher, sql4) \<Rightarrow>
     (case clause (kw_ws_kw_ws ''GROUP'' ''BY'') [''ORDER'', ''LIMIT''] sql4 of
        Inl e \<Rightarrow> Inl e
      | Inr (groupby, sql5) \<Rightarrow>
     (case clause (kw_ws_kw_ws ''ORDER'' ''BY'') [''LIMIT''] sql5 of
        Inl e \<Rightarrow> Inl e
      | Inr (orderby, sql6) \<Rightarrow>
          Inr \<lparr>c_fields = fields, c_list_fields = list_fields, c_aggregate = aggregate,
               c_table = table, c_where = wher, c_groupby = groupby, c_orderby = orderby,
               c_sql = sql6\<rparr>))))))"

text \<open>
  Lines 110 to 117: an explicit \<open>LIMIT\<close> found by \<open>(LIMIT\s+)(\d+)\s*\<close> in the text
  left, else the caller's cap for a query that is not an aggregate.
\<close>

definition explicit_limit :: "string \<Rightarrow> string option" where
  "explicit_limit sql = map_option (\<lambda>(i, d, n). d) (re_search (kw_ws_run ''LIMIT'' isdigit) sql)"

definition resolve_limit :: "string \<Rightarrow> bool \<Rightarrow> int \<Rightarrow> string option" where
  "resolve_limit sql aggregate hard_limit =
     (case explicit_limit sql of
        Some d \<Rightarrow> Some d
      | None \<Rightarrow> if \<not> aggregate \<and> hard_limit > 0 then Some (str hard_limit) else None)"

section \<open>Part 2: the heuristics\<close>

text \<open>
  Lists are mutable objects: \<open>list_fields = table2columns[table]\<close> makes the local
  variable and the caller's dictionary refer to one list.  So a list lives in a store at
  an address, the dictionary \<open>table2columns\<close> maps a table name to the address of its
  column list, and \<open>list_fields\<close> is an address.  The list built by \<open>re.findall\<close> is a
  new object, put at the next free address.  \<open>table2columns\<close> is a \<open>dict\<close>, as its
  annotation says, so the test \<open>table2columns is not None\<close> is true.
\<close>

type_synonym addr = nat

type_synonym heap = "addr \<Rightarrow> string list"

record store =
  cells :: heap
  nxt :: addr

type_synonym schema = "string \<rightharpoonup> addr"

text \<open>Lines 123 to 130: \<open>SELECT *\<close>.  The state is \<open>fields\<close>, \<open>list_fields\<close> and the store.\<close>

definition select_star ::
  "schema \<Rightarrow> string \<Rightarrow> string \<times> addr \<times> heap \<Rightarrow> string \<times> addr \<times> heap" where
  "select_star table2columns table st =
     (case st of (fields_s, list_fields, h) \<Rightarrow>
        if fields_s = ''*'' then
          (case table2columns table of
             Some a \<Rightarrow> (join '', '' (h a), a, h)
           | None \<Rightarrow> (''FIELDS(ALL)'', list_fields, h(list_fields := h list_fields @ [''Id''])))
        else (fields_s, list_fields, h))"

text \<open>Lines 132 to 134: \<open>count(*)\<close>.\<close>

definition count_star :: "string \<Rightarrow> string" where
  "count_star fields_s = (if lower fields_s = ''count(*)'' then ''count()'' else fields_s)"

text \<open>Lines 136 to 140: the forced \<open>Id\<close>.\<close>

definition force_id ::
  "bool \<Rightarrow> bool \<Rightarrow> string \<times> addr \<times> heap \<Rightarrow> string \<times> addr \<times> heap" where
  "force_id aggregate add_id st =
     (case st of (fields_s, list_fields, h) \<Rightarrow>
        if ''Id'' \<notin> set (h list_fields) \<and> \<not> aggregate \<and> add_id
        then (fields_s @ '', Id'', list_fields, h(list_fields := h list_fields @ [''Id'']))
        else (fields_s, list_fields, h))"

text \<open>
  Lines 144 to 148: the loop \<open>for f in table2columns[table]\<close>.  A list iterator is an
  index into the list, compared with the current length before every step.
\<close>

function id_columns_loop :: "nat \<Rightarrow> addr \<Rightarrow> addr \<Rightarrow> string \<Rightarrow> heap \<Rightarrow> string \<times> heap" where
  "id_columns_loop i cols list_fields fields_s h =
     (if i < length (h cols) then
        (let f = h cols ! i in
         if (endswith f ''Id'' \<or> endswith f ''Id__c'') \<and> f \<notin> set (h list_fields)
         then id_columns_loop (Suc i) cols list_fields (fields_s @ '', '' @ f)
                (h(list_fields := h list_fields @ [f]))
         else id_columns_loop (Suc i) cols list_fields fields_s h)
      else (fields_s, h))"
  by pat_completeness auto
termination
proof (relation "measure (\<lambda>(i, cols, list_fields, fields_s, h). length (h cols) - i)")
  show "wf (measure (\<lambda>(i, cols, list_fields, fields_s, h). length (h cols) - i))"
    by simp
next
  fix i :: nat and cols list_fields :: addr and fields_s :: string and h :: heap and f
  assume i: "i < length (h cols)" and f: "f = h cols ! i"
    and new: "(endswith f ''Id'' \<or> endswith f ''Id__c'') \<and> f \<notin> set (h list_fields)"
  from i f have "f \<in> set (h cols)" by simp
  with new have "list_fields \<noteq> cols" by auto
  with i show "((Suc i, cols, list_fields, fields_s @ '', '' @ f,
                 h(list_fields := h list_fields @ [f])),
                (i, cols, list_fields, fields_s, h))
               \<in> measure (\<lambda>(i, cols, list_fields, fields_s, h). length (h cols) - i)"
    by simp
next
  fix i :: nat and cols list_fields :: addr and fields_s :: string and h :: heap and f
  assume "i < length (h cols)"
  then show "((Suc i, cols, list_fields, fields_s, h), (i, cols, list_fields, fields_s, h))
               \<in> measure (\<lambda>(i, cols, list_fields, fields_s, h). length (h cols) - i)"
    by simp
qed

declare id_columns_loop.simps [simp del]

text \<open>Lines 142 to 148: the columns whose name ends in \<open>Id\<close> or \<open>Id__c\<close>.\<close>

definition id_columns ::
  "schema \<Rightarrow> string \<Rightarrow> bool \<Rightarrow> bool \<Rightarrow> string \<times> addr \<times> heap \<Rightarrow> string \<times> addr \<times> heap" where
  "id_columns table2columns table aggregate add_id st =
     (case st of (fields_s, list_fields, h) \<Rightarrow>
        (case table2columns table of
           Some cols \<Rightarrow>
             if \<not> aggregate \<and> add_id
             then (case id_columns_loop 0 cols list_fields fields_s h of
                     (fields_s', h') \<Rightarrow> (fields_s', list_fields, h'))
             else (fields_s, list_fields, h)
         | None \<Rightarrow> (fields_s, list_fields, h)))"

text \<open>
  Lines 153 to 156: the loop \<open>for c in list_fields\<close>, which removes from the list it
  walks: \<open>list_fields.remove(c)\<close> deletes the first element equal to \<open>c\<close>, the later
  elements move down by one, and the iterator's index goes up by one all the same.
\<close>

function prune_loop :: "nat \<Rightarrow> addr \<Rightarrow> addr \<Rightarrow> heap \<Rightarrow> heap" where
  "prune_loop i cols list_fields h =
     (if i < length (h list_fields) then
        (let c = h list_fields ! i in
         if CHR ''('' \<notin> set c \<and> c \<notin> set (h cols)
         then prune_loop (Suc i) cols list_fields (h(list_fields := remove1 c (h list_fields)))
         else prune_loop (Suc i) cols list_fields h)
      else h)"
  by pat_completeness auto
termination
  by (relation "measure (\<lambda>(i, cols, list_fields, h). length (h list_fields) - i)")
     (auto simp: length_remove1)

declare prune_loop.simps [simp del]

text \<open>Lines 150 to 159: the unknown columns, and \<open>fields\<close> built again from the list.\<close>

definition prune ::
  "schema \<Rightarrow> string \<Rightarrow> string \<times> addr \<times> heap \<Rightarrow> string \<times> addr \<times> heap" where
  "prune table2columns table st =
     (case st of (fields_s, list_fields, h) \<Rightarrow>
        (case table2columns table of
           Some cols \<Rightarrow>
             (let h' = prune_loop 0 cols list_fields h
              in (join '', '' (h' list_fields), list_fields, h'))
         | None \<Rightarrow> (fields_s, list_fields, h)))"

text \<open>Lines 123 to 159 in their order.\<close>

definition fix_fields ::
  "schema \<Rightarrow> string \<Rightarrow> bool \<Rightarrow> bool \<Rightarrow> string \<times> addr \<times> heap \<Rightarrow> string \<times> addr \<times> heap" where
  "fix_fields table2columns table aggregate add_id st =
     prune table2columns table
       (id_columns table2columns table aggregate add_id
          (force_id aggregate add_id
             (case select_star table2columns table st of
                (fields_s, list_fields, h) \<Rightarrow> (count_star fields_s, list_fields, h))))"

text \<open>Lines 164 to 169: the date pseudo-constants.\<close>

definition date_constants :: "string \<Rightarrow> string" where
  "date_constants wher =
     (let w1 = replace ''TODAY()'' ''TODAY'' wher;
          w2 = re_sub (op_ws_lit ''<='' ''THIS_MONTH_END'') ''< NEXT_MONTH'' w1;
          w3 = re_sub (op_ws_lit ''>='' ''THIS_MONTH_START'') ''> LAST_MONTH'' w2;
          w4 = re_sub (op_ws_day ''<='' ''LAST_DAY'') ''< NEXT_MONTH'' w3;
          w5 = re_sub (op_ws_day ''>='' ''FIRST_DAY'') ''> LAST_MONTH'' w4
      in w5)"

lemma re_search_Some:
  "re_search m s = Some (i, r) \<Longrightarrow> i \<le> length s \<and> m (drop i s) = Some r"
proof (induction s arbitrary: i)
  case Nil
  then show ?case by auto
next
  case (Cons c cs)
  show ?case
  proof (cases "m (c # cs)")
    case None
    with Cons.prems obtain j where j: "re_search m cs = Some (j, r)" "i = Suc j"
      by auto
    with Cons.IH [of j] show ?thesis by simp
  next
    case (Some a)
    with Cons.prems show ?thesis by simp
  qed
qed

lemma digits12_le: "digits12 s = Some a \<Longrightarrow> 1 \<le> a \<and> a \<le> 2 \<and> a \<le> length s"
  by (auto simp: digits12_def split: list.splits if_splits)

lemma pat_date1_len: "pat_date1 s = Some n \<Longrightarrow> 10 \<le> n \<and> n \<le> length s"
  by (auto simp: pat_date1_def starts_with_def split: list.splits if_splits option.splits
      dest!: digits12_le)

text \<open>
  Lines 172 to 177: the loop \<open>while m := re.search(pat_date1, where)\<close>, which deletes
  the character at \<open>last - 1\<close> and then the character at \<open>first\<close>.
\<close>

function unquote_dates :: "string \<Rightarrow> string" where
  "unquote_dates wher =
     (case re_search pat_date1 wher of
        None \<Rightarrow> wher
      | Some (first, n) \<Rightarrow>
          (let last = first + n;
               w1 = take (last - 1) wher @ drop last wher;
               w2 = take first w1 @ drop (first + 1) w1
           in unquote_dates w2))"
  by pat_completeness auto
termination
proof (relation "measure length")
  show "wf (measure (length :: string \<Rightarrow> nat))" by simp
next
  fix wher :: string and x2 first n last w1 w2
  assume m: "re_search pat_date1 wher = Some x2" "(first, n) = x2"
    and d: "last = first + n" "w1 = take (last - 1) wher @ drop last wher"
      "w2 = take first w1 @ drop (first + 1) w1"
  from m have s: "re_search pat_date1 wher = Some (first, n)" by simp
  from re_search_Some [OF s] have "first \<le> length wher" "pat_date1 (drop first wher) = Some n"
    by simp_all
  with pat_date1_len [of "drop first wher" n] have n: "10 \<le> n" "first + n \<le> length wher"
    by auto
  with d have l1: "length w1 = length wher - 1" by simp
  with d n have "length w2 = length w1 - 1" by simp
  with l1 n show "(w2, wher) \<in> measure length" by simp
qed

declare unquote_dates.simps [simp del]

text \<open>Lines 162 to 177.\<close>

definition fix_where :: "string \<Rightarrow> string" where
  "fix_where wher = unquote_dates (date_constants wher)"

section \<open>Part 3: the SOQL statement\<close>

text \<open>Lines 184 to 193.\<close>

definition assemble ::
  "string \<Rightarrow> string \<Rightarrow> string option \<Rightarrow> string option \<Rightarrow> string option \<Rightarrow> string option \<Rightarrow> string" where
  "assemble fields_s table wher groupby orderby limit =
     ''SELECT '' @ fields_s @ '' '' @
     ''FROM '' @ table @ '' '' @
     (case wher of None \<Rightarrow> [] | Some w \<Rightarrow> ''WHERE '' @ w @ '' '') @
     (case groupby of None \<Rightarrow> [] | Some g \<Rightarrow> ''GROUP BY '' @ g @ '' '') @
     (case orderby of None \<Rightarrow> [] | Some ob \<Rightarrow> ''ORDER BY '' @ ob @ '' '') @
     (case limit of None \<Rightarrow> [] | Some l \<Rightarrow> ''LIMIT '' @ l)"

section \<open>The translator\<close>

text \<open>
  \<open>sql2soql(sql, table2columns, add_id, hard_limit)\<close> run in a store: the result is the
  exception, or the returned pair \<open>(result, table)\<close> with the store the call leaves.
  The list of \<open>re.findall\<close> is the one new object.
\<close>

definition sql2soql ::
  "string \<Rightarrow> schema \<Rightarrow> bool \<Rightarrow> int \<Rightarrow> store \<Rightarrow> error + ((string \<times> string) \<times> store)" where
  "sql2soql sql table2columns add_id hard_limit s =
     (case parse_sql sql of
        Inl e \<Rightarrow> Inl e
      | Inr c \<Rightarrow>
          (let limit = resolve_limit (c_sql c) (c_aggregate c) hard_limit;
               h = (cells s)(nxt s := c_list_fields c)
           in case fix_fields table2columns (c_table c) (c_aggregate c) add_id
                     (c_fields c, nxt s, h) of
                (fields_s, list_fields, h') \<Rightarrow>
                  (let wher = map_option fix_where (c_where c);
                       result = assemble fields_s (c_table c) wher (c_groupby c) (c_orderby c) limit
                   in Inr ((result, c_table c), \<lparr>cells = h', nxt = Suc (nxt s)\<rparr>))))"

text \<open>What the caller gets back, and the store the call leaves behind.\<close>

definition returned :: "error + ((string \<times> string) \<times> store) \<Rightarrow> error + (string \<times> string)" where
  "returned r = (case r of Inl e \<Rightarrow> Inl e | Inr (rt, s) \<Rightarrow> Inr rt)"

definition store_after :: "error + ((string \<times> string) \<times> store) \<Rightarrow> store option" where
  "store_after r = (case r of Inl e \<Rightarrow> None | Inr (rt, s) \<Rightarrow> Some s)"

section \<open>The schema of the source's own test\<close>

text \<open>
  \<open>tables = {'Account': ['Id', 'a1', 'a2', 'a3', 'OwnerId']}\<close>: the column list is the
  one object of the store.
\<close>

definition account_schema :: schema where
  "account_schema = [''Account'' \<mapsto> 0]"

definition account_store :: store where
  "account_store = \<lparr>cells = (\<lambda>_. [])(0 := [''Id'', ''a1'', ''a2'', ''a3'', ''OwnerId'']), nxt = 1\<rparr>"

section \<open>The second query of the source's test\<close>

definition query2 :: string where
  "query2 = ''SELECT Max(a1) cmax FROM Account WHERE Name='Fred' Group BY firstname order by cmax DESC''"

lemma query2_parse:
  "parse_sql query2 =
     Inr \<lparr>c_fields = ''Max(a1) cmax'', c_list_fields = [''Max(a1)'', ''cmax''],
          c_aggregate = True, c_table = ''Account'',
          c_where = Some (''Name='Fred'' @ [CHR 0x27]),
          c_groupby = Some ''firstname'', c_orderby = Some ''cmax DESC'', c_sql = []\<rparr>"
  by code_simp

lemma fix_fields_aggregate:
  "fix_fields table2columns table True add_id st =
     prune table2columns table
       (case select_star table2columns table st of (f, l, h) \<Rightarrow> (count_star f, l, h))"
  by (simp add: fix_fields_def force_id_def id_columns_def split: prod.splits option.splits)

lemma query2_fields:
  "fst (prune account_schema ''Account''
         (case select_star account_schema ''Account''
                 (''Max(a1) cmax'', nxt account_store,
                  (cells account_store)(nxt account_store := [''Max(a1)'', ''cmax''])) of
            (f, l, h) \<Rightarrow> (count_star f, l, h))) = ''Max(a1)''"
  by code_simp

lemma query2_where: "fix_where (''Name='Fred'' @ [CHR 0x27]) = ''Name='Fred'' @ [CHR 0x27]"
  by code_simp

lemma resolve_limit_empty_aggregate: "resolve_limit [] True hard_limit = None"
  by (simp add: resolve_limit_def explicit_limit_def kw_ws_run_def)

lemma query2_value:
  "returned (sql2soql query2 account_schema add_id hard_limit account_store) =
     Inr (''SELECT Max(a1) FROM Account WHERE Name='Fred' GROUP BY firstname ORDER BY cmax DESC '',
          ''Account'')"
proof -
  obtain f l h where p: "fix_fields account_schema ''Account'' True add_id
      (''Max(a1) cmax'', nxt account_store,
       (cells account_store)(nxt account_store := [''Max(a1)'', ''cmax''])) = (f, l, h)"
    by (cases "fix_fields account_schema ''Account'' True add_id
      (''Max(a1) cmax'', nxt account_store,
       (cells account_store)(nxt account_store := [''Max(a1)'', ''cmax'']))") auto
  from p query2_fields have f: "f = ''Max(a1)''"
    by (simp add: fix_fields_aggregate)
  show ?thesis
    by (simp add: sql2soql_def query2_parse resolve_limit_empty_aggregate p f query2_where [simplified]
        returned_def assemble_def del: fun_upd_apply)
qed

section \<open>Facts about the parser\<close>

text \<open>
  A pattern is found in a text when it matches at some position of it (the end
  included): \<open>pattern.search\<close> then returns a match, and otherwise \<open>None\<close>.
\<close>

definition found :: "(string \<Rightarrow> 'a option) \<Rightarrow> string \<Rightarrow> bool" where
  "found m sql = (\<exists>i \<in> set [0..<Suc (length sql)]. m (drop i sql) \<noteq> None)"

lemma found_iff: "found m s \<longleftrightarrow> (\<exists>i \<le> length s. m (drop i s) \<noteq> None)"
proof -
  have "set [0..<Suc (length s)] = {i. i \<le> length s}" by auto
  then show ?thesis unfolding found_def by blast
qed

lemma re_search_found: "re_search m s = Some x \<Longrightarrow> found m s"
proof -
  assume a: "re_search m s = Some x"
  obtain i r where x: "x = (i, r)" by (cases x)
  from re_search_Some [of m s i r] a x have "i \<le> length s" "m (drop i s) = Some r" by simp_all
  then show ?thesis unfolding found_iff by force
qed

lemma found_drop: "found m (drop k s) \<Longrightarrow> found m s"
proof -
  assume "found m (drop k s)"
  then obtain i where i: "i \<le> length s - k" "m (drop (i + k) s) \<noteq> None"
    unfolding found_iff by (auto simp: add.commute)
  show ?thesis
  proof (cases "k \<le> length s")
    case True
    with i have "i + k \<le> length s" by simp
    with i(2) show ?thesis unfolding found_iff by blast
  next
    case False
    with i have "m (drop (length s) s) \<noteq> None" by simp
    then show ?thesis unfolding found_iff by blast
  qed
qed

lemma lazy_dot_Some:
  "lazy_dot k s = Some (n, r) \<Longrightarrow> n \<le> length s \<and> k (drop n s) = Some r"
proof (induction s arbitrary: n)
  case Nil
  then show ?case by auto
next
  case (Cons c cs)
  show ?case
  proof (cases "k (c # cs)")
    case None
    with Cons.prems obtain j where j: "lazy_dot k cs = Some (j, r)" "n = Suc j"
      by (auto split: if_splits)
    with Cons.IH [of j] show ?thesis by simp
  next
    case (Some a)
    with Cons.prems show ?thesis by simp
  qed
qed

lemma re_search_lazy_found:
  assumes "re_search (lazy_dot k) s = Some x"
  shows "found k s"
proof -
  obtain i n r where x: "x = (i, n, r)" by (cases x)
  from re_search_Some [of "lazy_dot k" s i "(n, r)"] assms x
  have i: "i \<le> length s" "lazy_dot k (drop i s) = Some (n, r)" by simp_all
  from lazy_dot_Some [OF i(2)] have "k (drop n (drop i s)) = Some r" by simp
  then have "found k (drop i s)"
    using lazy_dot_Some [OF i(2)] unfolding found_iff by force
  then show ?thesis by (rule found_drop)
qed

lemma parse_sql_no_select:
  "\<not> found (kw_ws ''select'') sql \<Longrightarrow> parse_sql sql = Inl AttributeError"
  using re_search_found [of "kw_ws ''select''" sql]
  by (cases "re_search (kw_ws ''select'') sql") (auto simp: parse_sql_def)

lemma parse_sql_no_from:
  assumes "\<not> found (kw_ws ''from'') sql"
  shows "parse_sql sql = Inl AttributeError"
proof (cases "re_search (kw_ws ''select'') sql")
  case None
  then show ?thesis by (simp add: parse_sql_def)
next
  case (Some x)
  obtain i n where x: "x = (i, n)" by (cases x)
  from assms found_drop [of "kw_ws ''from''" "i + n" sql]
  have "\<not> found (kw_ws ''from'') (drop (i + n) sql)" by blast
  with re_search_lazy_found [of "kw_ws ''from''" "drop (i + n) sql"]
  have "re_search (lazy_dot (kw_ws ''from'')) (drop (i + n) sql) = None"
    by (cases "re_search (lazy_dot (kw_ws ''from'')) (drop (i + n) sql)") auto
  with Some x show ?thesis by (simp add: parse_sql_def)
qed

section \<open>Facts about the heuristics\<close>

text \<open>
  When \<open>list_fields\<close> is the schema's own list, the two loops change nothing: every
  column they look at is in the list already.
\<close>

lemma id_columns_loop_alias:
  "list_fields = cols \<Longrightarrow> id_columns_loop i cols list_fields f h = (f, h)"
proof (induction i cols list_fields f h rule: id_columns_loop.induct)
  case (1 i cols list_fields f h)
  show ?case
  proof (cases "i < length (h cols)")
    case True
    with "1.prems" have "h cols ! i \<in> set (h list_fields)" by simp
    with True "1.IH"(2) [OF True refl _ "1.prems"] show ?thesis
      by (subst id_columns_loop.simps) simp
  next
    case False
    then show ?thesis by (subst id_columns_loop.simps) simp
  qed
qed

lemma prune_loop_alias:
  "list_fields = cols \<Longrightarrow> prune_loop i cols list_fields h = h"
proof (induction i cols list_fields h rule: prune_loop.induct)
  case (1 i cols list_fields h)
  show ?case
  proof (cases "i < length (h list_fields)")
    case True
    with "1.prems" have "h list_fields ! i \<in> set (h cols)" by simp
    with True "1.IH"(2) [OF True refl _ "1.prems"] show ?thesis
      by (subst prune_loop.simps) simp
  next
    case False
    then show ?thesis by (subst prune_loop.simps) simp
  qed
qed

text \<open>What the loop over the schema's columns appends to a list \<open>L\<close>.\<close>

fun id_new :: "string list \<Rightarrow> string list \<Rightarrow> string list" where
  "id_new L [] = []"
| "id_new L (f # fs) =
     (if (endswith f ''Id'' \<or> endswith f ''Id__c'') \<and> f \<notin> set L
      then f # id_new (L @ [f]) fs else id_new L fs)"

lemma set_id_new:
  "set (id_new L fs) = {f \<in> set fs. (endswith f ''Id'' \<or> endswith f ''Id__c'') \<and> f \<notin> set L}"
  by (induction fs arbitrary: L) auto

lemma distinct_id_new: "distinct (id_new L fs)"
  by (induction fs arbitrary: L) (auto simp: set_id_new)

lemma id_columns_loop_new:
  "list_fields \<noteq> cols \<Longrightarrow>
   snd (id_columns_loop i cols list_fields f h) =
     h(list_fields := h list_fields @ id_new (h list_fields) (drop i (h cols)))"
proof (induction i cols list_fields f h rule: id_columns_loop.induct)
  case (1 i cols list_fields f h)
  show ?case
  proof (cases "i < length (h cols)")
    case True
    let ?x = "h cols ! i"
    from True have d: "drop i (h cols) = ?x # drop (Suc i) (h cols)"
      by (simp add: Cons_nth_drop_Suc)
    show ?thesis
    proof (cases "(endswith ?x ''Id'' \<or> endswith ?x ''Id__c'') \<and> ?x \<notin> set (h list_fields)")
      case new: True
      let ?h = "h(list_fields := h list_fields @ [?x])"
      have step: "id_columns_loop i cols list_fields f h =
                  id_columns_loop (Suc i) cols list_fields (f @ '', '' @ ?x) ?h"
        using True new by (subst id_columns_loop.simps) (simp add: Let_def)
      have ih: "snd (id_columns_loop (Suc i) cols list_fields (f @ '', '' @ ?x) ?h) =
           ?h(list_fields := ?h list_fields @ id_new (?h list_fields) (drop (Suc i) (?h cols)))"
        by (rule "1.IH"(1) [OF True refl new "1.prems"])
      show ?thesis
        unfolding step ih using new "1.prems" d by simp
    next
      case old: False
      have step: "id_columns_loop i cols list_fields f h =
                  id_columns_loop (Suc i) cols list_fields f h"
        using True old by (subst id_columns_loop.simps) (auto simp: Let_def)
      have ih: "snd (id_columns_loop (Suc i) cols list_fields f h) =
           h(list_fields := h list_fields @ id_new (h list_fields) (drop (Suc i) (h cols)))"
        by (rule "1.IH"(2) [OF True refl old "1.prems"])
      show ?thesis
        unfolding step ih using old d by auto
    qed
  next
    case False
    then show ?thesis by (subst id_columns_loop.simps) simp
  qed
qed

lemma prune_loop_other: "b \<noteq> list_fields \<Longrightarrow> prune_loop i cols list_fields h b = h b"
proof (induction i cols list_fields h rule: prune_loop.induct)
  case (1 i cols list_fields h)
  show ?case
  proof (cases "i < length (h list_fields)")
    case True
    let ?c = "h list_fields ! i"
    show ?thesis
    proof (cases "CHR ''('' \<notin> set ?c \<and> ?c \<notin> set (h cols)")
      case rm: True
      let ?h = "h(list_fields := remove1 ?c (h list_fields))"
      have step: "prune_loop i cols list_fields h = prune_loop (Suc i) cols list_fields ?h"
        using True rm by (subst prune_loop.simps) (simp add: Let_def)
      have "prune_loop (Suc i) cols list_fields ?h b = ?h b"
        by (rule "1.IH"(1) [OF True refl rm "1.prems"])
      with "1.prems" show ?thesis unfolding step by simp
    next
      case keep: False
      have step: "prune_loop i cols list_fields h = prune_loop (Suc i) cols list_fields h"
        using True keep by (subst prune_loop.simps) (auto simp: Let_def)
      show ?thesis
        unfolding step by (rule "1.IH"(2) [OF True refl keep "1.prems"])
    qed
  next
    case False
    then show ?thesis by (subst prune_loop.simps) simp
  qed
qed

text \<open>An entry that the loop does not remove when it meets it stays in the list.\<close>

lemma prune_loop_keeps:
  "list_fields \<noteq> cols \<Longrightarrow> x \<in> set (h list_fields) \<Longrightarrow>
   CHR ''('' \<in> set x \<or> x \<in> set (h cols) \<Longrightarrow>
   x \<in> set (prune_loop i cols list_fields h list_fields)"
proof (induction i cols list_fields h rule: prune_loop.induct)
  case (1 i cols list_fields h)
  show ?case
  proof (cases "i < length (h list_fields)")
    case True
    let ?c = "h list_fields ! i"
    show ?thesis
    proof (cases "CHR ''('' \<notin> set ?c \<and> ?c \<notin> set (h cols)")
      case rm: True
      let ?h = "h(list_fields := remove1 ?c (h list_fields))"
      have step: "prune_loop i cols list_fields h = prune_loop (Suc i) cols list_fields ?h"
        using True rm by (subst prune_loop.simps) (simp add: Let_def)
      from rm "1.prems" have "x \<noteq> ?c" by auto
      with "1.prems" have a: "x \<in> set (?h list_fields)" by simp
      from "1.prems" have b: "CHR ''('' \<in> set x \<or> x \<in> set (?h cols)" by simp
      show ?thesis
        unfolding step by (rule "1.IH"(1) [OF True refl rm "1.prems"(1) a b])
    next
      case keep: False
      have step: "prune_loop i cols list_fields h = prune_loop (Suc i) cols list_fields h"
        using True keep by (subst prune_loop.simps) (auto simp: Let_def)
      show ?thesis
        unfolding step by (rule "1.IH"(2) [OF True refl keep "1.prems"])
    qed
  next
    case False
    with "1.prems" show ?thesis by (subst prune_loop.simps) simp
  qed
qed

lemma fix_fields_star_known:
  assumes "table2columns table = Some a"
  shows "fix_fields table2columns table False add_id (''*'', l, h) =
     (join '', '' (h a @ (if add_id \<and> ''Id'' \<notin> set (h a) then [''Id''] else [])), a,
      h(a := h a @ (if add_id \<and> ''Id'' \<notin> set (h a) then [''Id''] else [])))"
  using assms
  by (simp add: fix_fields_def select_star_def force_id_def id_columns_def prune_def
      id_columns_loop_alias prune_loop_alias Let_def)

lemma count_star_sentinel: "count_star ''FIELDS(ALL)'' = ''FIELDS(ALL)''"
  by code_simp

lemma fix_fields_star_unknown:
  assumes "table2columns table = None"
  shows "fix_fields table2columns table False add_id (''*'', l, h) =
     (''FIELDS(ALL)'', l, h(l := h l @ [''Id'']))"
  using assms
  by (simp add: fix_fields_def select_star_def force_id_def id_columns_def prune_def
      count_star_sentinel)


text \<open>The pruning loop on a list that is not the schema's own.\<close>

function pruned :: "nat \<Rightarrow> string list \<Rightarrow> string list \<Rightarrow> string list" where
  "pruned i cols L =
     (if i < length L then
        (if CHR ''('' \<notin> set (L ! i) \<and> L ! i \<notin> set cols
         then pruned (Suc i) cols (remove1 (L ! i) L)
         else pruned (Suc i) cols L)
      else L)"
  by pat_completeness auto
termination
  by (relation "measure (\<lambda>(i, cols, L). length L - i)") (auto simp: length_remove1)

declare pruned.simps [simp del]

lemma prune_loop_pruned:
  "list_fields \<noteq> cols \<Longrightarrow>
   prune_loop i cols list_fields h = h(list_fields := pruned i (h cols) (h list_fields))"
proof (induction i cols list_fields h rule: prune_loop.induct)
  case (1 i cols list_fields h)
  show ?case
  proof (cases "i < length (h list_fields)")
    case True
    let ?c = "h list_fields ! i"
    show ?thesis
    proof (cases "CHR ''('' \<notin> set ?c \<and> ?c \<notin> set (h cols)")
      case rm: True
      let ?h = "h(list_fields := remove1 ?c (h list_fields))"
      have step: "prune_loop i cols list_fields h = prune_loop (Suc i) cols list_fields ?h"
        using True rm by (subst prune_loop.simps) (simp add: Let_def)
      have ih: "prune_loop (Suc i) cols list_fields ?h =
                ?h(list_fields := pruned (Suc i) (?h cols) (?h list_fields))"
        by (rule "1.IH"(1) [OF True refl rm "1.prems"])
      have p: "pruned i (h cols) (h list_fields) =
               pruned (Suc i) (h cols) (remove1 ?c (h list_fields))"
        using True rm by (subst pruned.simps) simp
      show ?thesis
        unfolding step ih p using "1.prems" by simp
    next
      case keep: False
      have step: "prune_loop i cols list_fields h = prune_loop (Suc i) cols list_fields h"
        using True keep by (subst prune_loop.simps) (auto simp: Let_def)
      have ih: "prune_loop (Suc i) cols list_fields h =
                h(list_fields := pruned (Suc i) (h cols) (h list_fields))"
        by (rule "1.IH"(2) [OF True refl keep "1.prems"])
      have p: "pruned i (h cols) (h list_fields) = pruned (Suc i) (h cols) (h list_fields)"
        using True keep by (subst pruned.simps) auto
      show ?thesis
        unfolding step ih p by simp
    qed
  next
    case False
    then have "pruned i (h cols) (h list_fields) = h list_fields"
      by (subst pruned.simps) simp
    with False show ?thesis by (subst prune_loop.simps) simp
  qed
qed

lemma pruned_done: "length L \<le> i \<Longrightarrow> pruned i cols L = L"
  by (subst pruned.simps) simp

lemma pruned_append:
  "\<forall>y \<in> set ys. y \<in> set cols \<Longrightarrow> pruned i cols (xs @ ys) = pruned i cols xs @ ys"
proof (induction "length xs + length ys - i" arbitrary: i xs rule: less_induct)
  case less
  show ?case
  proof (cases "i < length xs")
    case True
    then have n: "(xs @ ys) ! i = xs ! i" by (simp add: nth_append)
    show ?thesis
    proof (cases "CHR ''('' \<notin> set (xs ! i) \<and> xs ! i \<notin> set cols")
      case rm: True
      from True have r: "remove1 (xs ! i) (xs @ ys) = remove1 (xs ! i) xs @ ys"
        by (simp add: remove1_append)
      from True have l: "length (remove1 (xs ! i) xs) = length xs - 1"
        by (simp add: length_remove1)
      have "pruned (Suc i) cols (remove1 (xs ! i) xs @ ys) =
            pruned (Suc i) cols (remove1 (xs ! i) xs) @ ys"
        using True l by (intro less.hyps less.prems) simp
      with True rm n r show ?thesis
        by (subst pruned.simps, subst (2) pruned.simps) simp
    next
      case keep: False
      have "pruned (Suc i) cols (xs @ ys) = pruned (Suc i) cols xs @ ys"
        using True by (intro less.hyps less.prems) simp
      with True keep n show ?thesis
        by (subst pruned.simps, subst (2) pruned.simps) auto
    qed
  next
    case False
    then have x: "pruned i cols xs = xs" "pruned (Suc i) cols xs = xs"
      by (simp_all add: pruned_done)
    show ?thesis
    proof (cases "i < length (xs @ ys)")
      case True
      with False have "(xs @ ys) ! i \<in> set ys" by (simp add: nth_append)
      with less.prems have k: "(xs @ ys) ! i \<in> set cols" by blast
      have "pruned (Suc i) cols (xs @ ys) = pruned (Suc i) cols xs @ ys"
        using True by (intro less.hyps less.prems) simp
      with True k x show ?thesis
        by (subst pruned.simps) simp
    next
      case fin: False
      with x show ?thesis by (simp add: pruned_done)
    qed
  qed
qed

lemma set_pruned: "set (pruned i cols L) \<subseteq> set L"
proof (induction i cols L rule: pruned.induct)
  case (1 i cols L)
  show ?case
  proof (cases "i < length L")
    case True
    show ?thesis
    proof (cases "CHR ''('' \<notin> set (L ! i) \<and> L ! i \<notin> set cols")
      case rm: True
      from "1.IH"(1) [OF True rm] set_remove1_subset [of "L ! i" L] True rm show ?thesis
        by (subst pruned.simps) auto
    next
      case keep: False
      from "1.IH"(2) [OF True keep] True keep show ?thesis
        by (subst pruned.simps) auto
    qed
  next
    case False
    then show ?thesis by (simp add: pruned_done)
  qed
qed

text \<open>
  The heuristics for a query that is no aggregate on a known table, with \<open>add_id\<close>,
  when the field text is not \<open>*\<close>: the list keeps the address it has.
\<close>

lemma fix_fields_forced_known:
  assumes t: "table2columns table = Some a" and l: "l \<noteq> a" and f: "f \<noteq> ''*''"
  shows "\<exists>f'. fix_fields table2columns table False True (f, l, h) =
     (f', l,
      h(l := pruned 0 (h a) (h l @ (if ''Id'' \<in> set (h l) then [] else [''Id''])) @
             id_new (h l @ (if ''Id'' \<in> set (h l) then [] else [''Id''])) (h a))) \<and>
     f' = join '', '' (pruned 0 (h a) (h l @ (if ''Id'' \<in> set (h l) then [] else [''Id''])) @
             id_new (h l @ (if ''Id'' \<in> set (h l) then [] else [''Id''])) (h a))"
proof -
  define L where "L = h l @ (if ''Id'' \<in> set (h l) then [] else [''Id''])"
  have e: "select_star table2columns table (f, l, h) = (f, l, h)"
    using f by (simp add: select_star_def)
  obtain f1 where s1: "force_id False True (count_star f, l, h) = (f1, l, h(l := L))"
    unfolding L_def by (cases "''Id'' \<in> set (h l)") (auto simp: force_id_def)
  obtain f2 h2 where loop: "id_columns_loop 0 a l f1 (h(l := L)) = (f2, h2)"
    by (cases "id_columns_loop 0 a l f1 (h(l := L))")
  from id_columns_loop_new [OF l, of 0 f1 "h(l := L)"] loop l
  have h2: "h2 = h(l := L @ id_new L (h a))" by simp
  have s2: "id_columns table2columns table False True (f1, l, h(l := L)) = (f2, l, h2)"
    using t loop by (simp add: id_columns_def)
  have all: "\<forall>y \<in> set (id_new L (h a)). y \<in> set (h a)"
    by (auto simp: set_id_new)
  have p: "prune_loop 0 a l h2 = h(l := pruned 0 (h a) L @ id_new L (h a))"
    using l by (simp add: prune_loop_pruned [OF l] h2 pruned_append [OF all])
  show ?thesis
    using t unfolding L_def [symmetric] by (simp add: fix_fields_def e s1 s2 prune_def p Let_def)
qed


lemma parse_sql_fields:
  "parse_sql sql = Inr c \<Longrightarrow>
   c_aggregate c = (re_search aggregate_at (c_fields c) \<noteq> None) \<and>
   c_list_fields c = findall_fields (c_fields c)"
  by (auto simp: parse_sql_def Let_def split: option.splits sum.splits prod.splits)

lemma star_no_aggregate: "re_search aggregate_at ''*'' = None"
  by code_simp

section \<open>Facts about the dates of the \<open>WHERE\<close> clause\<close>

text \<open>
  A date as \<open>pat_date1\<close> takes it between its quotes: four digits, a hyphen, one or
  two digits, a hyphen, one or two digits.
\<close>

abbreviation quote :: char where "quote \<equiv> CHR 0x27"

definition digits :: "string \<Rightarrow> bool" where
  "digits s = (\<forall>c \<in> set s. isdigit c)"

definition iso_date :: "string \<Rightarrow> bool" where
  "iso_date D =
     (\<exists>y m d. D = y @ ''-'' @ m @ ''-'' @ d \<and> length y = 4 \<and>
        (length m = 1 \<or> length m = 2) \<and> (length d = 1 \<or> length d = 2) \<and>
        digits y \<and> digits m \<and> digits d)"

lemma not_isdigit: "\<not> isdigit (CHR ''-'')" "\<not> isdigit quote"
  by (simp_all add: isdigit_def)

lemma digits12_SomeD:
  "digits12 s = Some a \<Longrightarrow> (a = 1 \<or> a = 2) \<and> a \<le> length s \<and> digits (take a s)"
  by (auto simp: digits12_def digits_def split: list.splits if_splits)

lemma starts_with_D: "starts_with p s \<Longrightarrow> s = p @ drop (length p) s"
  by (metis append_take_drop_id starts_with_def)

lemma pat_date1_SomeD:
  assumes "pat_date1 s = Some n"
  shows "\<exists>D post. s = quote # D @ quote # post \<and> n = length D + 2 \<and> iso_date D"
proof -
  from assms obtain y1 y2 y3 y4 r a b where
    s: "s = quote # y1 # y2 # y3 # y4 # CHR ''-'' # r"
    and y: "digits [y1, y2, y3, y4]"
    and a: "digits12 r = Some a"
    and h: "starts_with ''-'' (drop a r)"
    and b: "digits12 (drop (a + 1) r) = Some b"
    and q: "starts_with [quote] (drop (a + 1 + b) r)"
    and n: "n = 6 + a + 1 + b + 1"
    by (auto simp: pat_date1_def digits_def split: list.splits if_splits option.splits)
  define m where "m = take a r"
  define d where "d = take b (drop (a + 1) r)"
  define post where "post = drop (a + 1 + b + 1) r"
  from digits12_SomeD [OF a] have ma: "length m = a" "a = 1 \<or> a = 2" "digits m"
    by (simp_all add: m_def)
  from digits12_SomeD [OF b] have db: "length d = b" "b = 1 \<or> b = 2" "digits d"
    by (simp_all add: d_def)
  have r1: "r = m @ drop a r" by (simp add: m_def)
  from starts_with_D [OF h] have r2: "drop a r = ''-'' @ drop (a + 1) r" by (simp add: add.commute)
  have r3: "drop (a + 1) r = d @ drop (a + 1 + b) r"
  proof -
    have "drop (a + 1) r = take b (drop (a + 1) r) @ drop b (drop (a + 1) r)"
      by (simp only: append_take_drop_id)
    also have "drop b (drop (a + 1) r) = drop (a + 1 + b) r"
      by (simp add: add.commute)
    finally show ?thesis by (simp only: d_def)
  qed
  from starts_with_D [OF q] have r4: "drop (a + 1 + b) r = [quote] @ post"
    by (simp add: post_def add.commute)
  have r: "r = m @ ''-'' @ d @ quote # post"
    using r1 r2 r3 r4 by simp
  let ?D = "[y1, y2, y3, y4] @ ''-'' @ m @ ''-'' @ d"
  have "iso_date ?D"
    unfolding iso_date_def using y ma db by (intro exI [of _ "[y1, y2, y3, y4]"] exI [of _ m] exI [of _ d]) simp
  moreover have "s = quote # ?D @ quote # post" using s r by simp
  moreover have "n = length ?D + 2" using n ma db by simp
  ultimately show ?thesis by blast
qed

lemma len1: "length xs = 1 \<Longrightarrow> \<exists>a. xs = [a]"
  by (cases xs) auto

lemma len2: "length xs = 2 \<Longrightarrow> \<exists>a b. xs = [a, b]"
  by (cases xs; cases "tl xs") auto

lemma len4: "length xs = 4 \<Longrightarrow> \<exists>a b c d. xs = [a, b, c, d]"
  by (cases xs; cases "tl xs"; cases "tl (tl xs)"; cases "tl (tl (tl xs))") auto

lemma pat_date1_complete:
  assumes "iso_date D"
  shows "pat_date1 (quote # D @ quote # post) = Some (length D + 2)"
proof -
  from assms obtain y m d where D: "D = y @ ''-'' @ m @ ''-'' @ d" and ly: "length y = 4"
    and lm: "length m = 1 \<or> length m = 2" and ld: "length d = 1 \<or> length d = 2"
    and dg: "digits y" "digits m" "digits d"
    unfolding iso_date_def by blast
  from len4 [OF ly] obtain y1 y2 y3 y4 where y: "y = [y1, y2, y3, y4]" by blast
  from lm show ?thesis
  proof
    assume "length m = 1"
    then obtain m1 where m: "m = [m1]" using len1 by blast
    from ld show ?thesis
    proof
      assume "length d = 1"
      then obtain d1 where d: "d = [d1]" using len1 by blast
      show ?thesis using dg unfolding D y m d
        by (simp add: pat_date1_def digits12_def starts_with_def digits_def not_isdigit)
    next
      assume "length d = 2"
      then obtain d1 d2 where d: "d = [d1, d2]" using len2 by blast
      show ?thesis using dg unfolding D y m d
        by (simp add: pat_date1_def digits12_def starts_with_def digits_def not_isdigit)
    qed
  next
    assume "length m = 2"
    then obtain m1 m2 where m: "m = [m1, m2]" using len2 by blast
    from ld show ?thesis
    proof
      assume "length d = 1"
      then obtain d1 where d: "d = [d1]" using len1 by blast
      show ?thesis using dg unfolding D y m d
        by (simp add: pat_date1_def digits12_def starts_with_def digits_def not_isdigit)
    next
      assume "length d = 2"
      then obtain d1 d2 where d: "d = [d1, d2]" using len2 by blast
      show ?thesis using dg unfolding D y m d
        by (simp add: pat_date1_def digits12_def starts_with_def digits_def not_isdigit)
    qed
  qed
qed

lemma iso_date_chars:
  assumes "iso_date D"
  shows "quote \<notin> set D \<and> D \<noteq> [] \<and> isdigit (last D)"
proof -
  from assms obtain y m d where D: "D = y @ ''-'' @ m @ ''-'' @ d"
    and ld: "length d = 1 \<or> length d = 2"
    and dg: "digits y" "digits m" "digits d"
    unfolding iso_date_def by blast
  from dg have "\<forall>c \<in> set D. isdigit c \<or> c = CHR ''-''"
    unfolding D by (auto simp: digits_def)
  with not_isdigit have "quote \<notin> set D" by auto
  moreover from ld have "d \<noteq> []" by auto
  with dg have "isdigit (last D)" unfolding D by (simp add: digits_def)
  ultimately show ?thesis unfolding D by simp
qed


lemma re_search_None: "re_search m s = None \<Longrightarrow> i \<le> length s \<Longrightarrow> m (drop i s) = None"
proof (induction s arbitrary: i)
  case Nil
  then show ?case by simp
next
  case (Cons c cs)
  from Cons.prems(1) have n: "m (c # cs) = None" "re_search m cs = None"
    by (auto split: option.splits)
  show ?case
  proof (cases i)
    case 0
    with n show ?thesis by simp
  next
    case (Suc j)
    with Cons.prems(2) Cons.IH [OF n(2), of j] show ?thesis by simp
  qed
qed

lemma unquote_dates_None: "re_search pat_date1 w = None \<Longrightarrow> unquote_dates w = w"
  by (subst unquote_dates.simps) simp

lemma unquote_dates_Some:
  assumes "re_search pat_date1 w = Some (first, n)"
  shows "\<exists>pre D post. w = pre @ quote # D @ quote # post \<and> length pre = first \<and> iso_date D \<and>
           unquote_dates w = unquote_dates (pre @ D @ post)"
proof -
  from re_search_Some [OF assms]
  have f: "first \<le> length w" and p: "pat_date1 (drop first w) = Some n" by simp_all
  from pat_date1_SomeD [OF p] obtain D post where
    d: "drop first w = quote # D @ quote # post" and n: "n = length D + 2" and i: "iso_date D"
    by blast
  define pre where "pre = take first w"
  from f have lp: "length pre = first" by (simp add: pre_def)
  have "w = pre @ drop first w" by (simp add: pre_def)
  with d have w: "w = pre @ quote # D @ quote # post" by simp
  have s: "re_search pat_date1 (pre @ quote # D @ quote # post) = Some (length pre, length D + 2)"
    using assms w lp n by simp
  have "unquote_dates (pre @ quote # D @ quote # post) = unquote_dates (pre @ D @ post)"
    by (subst unquote_dates.simps) (simp add: s Let_def)
  with w lp i show ?thesis by blast
qed

text \<open>
  One step of the loop takes the two quotes off one date; \<open>unquotes w w'\<close> holds when
  \<open>w'\<close> comes from \<open>w\<close> by such steps.
\<close>

inductive unquotes :: "string \<Rightarrow> string \<Rightarrow> bool" where
  unquotes_refl: "unquotes w w"
| unquotes_step:
    "iso_date D \<Longrightarrow> unquotes (pre @ D @ post) w' \<Longrightarrow>
     unquotes (pre @ quote # D @ quote # post) w'"

lemma unquote_dates_unquotes:
  "unquotes w (unquote_dates w) \<and> re_search pat_date1 (unquote_dates w) = None"
proof (induction "length w" arbitrary: w rule: less_induct)
  case less
  show ?case
  proof (cases "re_search pat_date1 w")
    case None
    then show ?thesis by (simp add: unquote_dates_None unquotes_refl)
  next
    case (Some x)
    obtain first n where "x = (first, n)" by (cases x)
    with Some unquote_dates_Some [of w first n] obtain pre D post where
      w: "w = pre @ quote # D @ quote # post" and i: "iso_date D"
      and u: "unquote_dates w = unquote_dates (pre @ D @ post)"
      by auto
    from w have "length (pre @ D @ post) < length w" by simp
    from less.hyps [OF this] u i w show ?thesis
      by (auto intro: unquotes_step)
  qed
qed

lemma sublist_delete:
  assumes "sublist X (u @ c # v)" and "c \<notin> set X"
  shows "sublist X (u @ v)"
proof -
  from assms(1) obtain a b where e: "u @ c # v = a @ X @ b"
    unfolding sublist_def by blast
  then consider t where "u = a @ t" "t @ c # v = X @ b" | t where "u @ t = a" "c # v = t @ X @ b"
    unfolding append_eq_append_conv2 by blast
  then show ?thesis
  proof cases
    case 1
    from 1(2) consider z where "t = X @ z" "z @ c # v = b" | z where "t @ z = X" "c # v = z @ b"
      unfolding append_eq_append_conv2 by blast
    then show ?thesis
    proof cases
      case 1
      with \<open>u = a @ t\<close> have "u @ v = a @ X @ (z @ v)" by simp
      then show ?thesis unfolding sublist_def by blast
    next
      case 2
      show ?thesis
      proof (cases z)
        case Nil
        with 2 \<open>u = a @ t\<close> have "u @ v = a @ X @ v" by simp
        then show ?thesis unfolding sublist_def by blast
      next
        case (Cons y ys)
        with 2 have "c \<in> set X" by auto
        with assms(2) show ?thesis by simp
      qed
    qed
  next
    case 2
    show ?thesis
    proof (cases t)
      case Nil
      with 2 assms(2) have "X = []" by (cases X) auto
      then show ?thesis by simp
    next
      case (Cons y ys)
      with 2 have "u @ v = (u @ ys) @ X @ b" by simp
      then show ?thesis unfolding sublist_def by blast
    qed
  qed
qed

lemma unquotes_sublist:
  "unquotes w w' \<Longrightarrow> sublist X w \<Longrightarrow> quote \<notin> set X \<Longrightarrow> sublist X w'"
proof (induction rule: unquotes.induct)
  case (unquotes_refl w)
  then show ?case by simp
next
  case (unquotes_step D pre post w')
  from unquotes_step.prems sublist_delete [of X pre quote "D @ quote # post"]
  have "sublist X ((pre @ D) @ quote # post)" by simp
  with unquotes_step.prems sublist_delete [of X "pre @ D" quote post]
  have "sublist X (pre @ D @ post)" by simp
  with unquotes_step.IH unquotes_step.prems show ?case by simp
qed

lemma no_quoted_date:
  assumes "re_search pat_date1 w = None" and "iso_date D"
  shows "\<not> sublist (quote # D @ [quote]) w"
proof
  assume "sublist (quote # D @ [quote]) w"
  then obtain pre post where w: "w = pre @ quote # D @ quote # post"
    unfolding sublist_def by auto
  from re_search_None [OF assms(1), of "length pre"] w
  have "pat_date1 (quote # D @ quote # post) = None" by simp
  with pat_date1_complete [OF assms(2), of post] show False by simp
qed


text \<open>
  The characters of a quoted date, and the matchers that never match one of them: such
  a rewrite leaves every quoted date of the text in place.
\<close>

definition date_char :: "char \<Rightarrow> bool" where
  "date_char c = (isdigit c \<or> c = CHR ''-'' \<or> c = quote)"

definition avoids :: "(string \<Rightarrow> nat option) \<Rightarrow> bool" where
  "avoids m = (\<forall>s n. m s = Some n \<longrightarrow> n \<le> length s \<and> (\<forall>c \<in> set (take n s). \<not> date_char c))"

lemma re_sub_date_chars:
  assumes "avoids m" and "\<forall>c \<in> set L. date_char c"
  shows "re_sub m r (L @ post) = L @ re_sub m r post"
  using assms(2)
proof (induction L)
  case Nil
  then show ?case by simp
next
  case (Cons c L)
  have "m (c # L @ post) = None \<or> m (c # L @ post) = Some 0"
  proof (cases "m (c # L @ post)")
    case None
    then show ?thesis by simp
  next
    case (Some k)
    show ?thesis
    proof (cases k)
      case 0
      with Some show ?thesis by simp
    next
      case (Suc j)
      with Some assms(1) have "\<not> date_char c" unfolding avoids_def by fastforce
      with Cons.prems show ?thesis by simp
    qed
  qed
  with Cons show ?case by auto
qed

lemma re_sub_keeps:
  assumes av: "avoids m" and L: "\<forall>c \<in> set L. date_char c" "L \<noteq> []"
  shows "\<exists>pre'. re_sub m r (pre @ L @ post) = pre' @ L @ re_sub m r post"
proof (induction "length pre" arbitrary: pre rule: less_induct)
  case less
  show ?case
  proof (cases pre)
    case Nil
    with re_sub_date_chars [OF av L(1), of r post] show ?thesis by simp
  next
    case (Cons c cs)
    have "length cs < length pre" using Cons by simp
    from less.hyps [OF this] obtain p1 where
      p1: "re_sub m r (cs @ L @ post) = p1 @ L @ re_sub m r post" by auto
    show ?thesis
    proof (cases "m (c # cs @ L @ post)")
      case None
      with Cons p1 show ?thesis by simp
    next
      case (Some k)
      show ?thesis
      proof (cases k)
        case 0
        with Some Cons p1 show ?thesis by simp
      next
        case (Suc n)
        with Some av have k: "Suc n \<le> length (c # cs @ L @ post)"
          and nd: "\<forall>x \<in> set (take (Suc n) (c # cs @ L @ post)). \<not> date_char x"
          unfolding avoids_def by blast+
        have n: "n \<le> length cs"
        proof (rule ccontr)
          assume "\<not> n \<le> length cs"
          then obtain j where j: "n = length cs + Suc j"
            using less_imp_Suc_add [of "length cs" n] by auto
          from L(2) obtain a L' where a: "L = a # L'" by (cases L) auto
          have "take n (cs @ L @ post) = cs @ a # take j (L' @ post)"
            unfolding j a by simp
          then have "hd L \<in> set (take n (cs @ L @ post))" using a by simp
          with nd have "\<not> date_char (hd L)" by simp
          with L show False by (cases L) auto
        qed
        then have d: "drop n (cs @ L @ post) = drop n cs @ L @ post" by simp
        have "length (drop n cs) < length pre" using Cons by simp
        from less.hyps [OF this] obtain p2 where
          "re_sub m r (drop n cs @ L @ post) = p2 @ L @ re_sub m r post" by auto
        with Some Suc Cons d show ?thesis by simp
      qed
    qed
  qed
qed

lemma re_sub_sublist:
  assumes "avoids m" and "\<forall>c \<in> set L. date_char c" and "L \<noteq> []" and "sublist L w"
  shows "sublist L (re_sub m r w)"
proof -
  from assms(4) obtain pre post where "w = pre @ L @ post"
    unfolding sublist_def by blast
  with re_sub_keeps [OF assms(1-3), of r pre post] show ?thesis
    unfolding sublist_def by blast
qed

lemma starts_with_set: "starts_with p s \<Longrightarrow> take (length p) s = p \<and> length p \<le> length s"
  by (simp add: starts_with_def)

lemma isspace_not_date_char: "isspace c \<Longrightarrow> \<not> date_char c"
  by (auto simp: isspace_def whitespace_def date_char_def isdigit_def)

lemma avoids_literal:
  "\<forall>c \<in> set old. \<not> date_char c \<Longrightarrow> avoids (literal old)"
  by (auto simp: avoids_def literal_def starts_with_def split: if_splits)

lemma op_ws_lit_SomeD:
  assumes "op_ws_lit op name s = Some n"
  shows "n \<le> length s \<and> take n s = op @ takeWhile isspace (drop (length op) s) @ name"
proof -
  let ?r = "drop (length op) s"
  let ?ws = "takeWhile isspace ?r"
  from assms have o: "starts_with op s" and m: "starts_with name (dropWhile isspace ?r)"
    and n: "n = length op + length ?ws + length name"
    by (auto simp: op_ws_lit_def Let_def split: if_splits)
  from starts_with_D [OF o] have s1: "s = op @ ?r" by simp
  have s2: "?r = ?ws @ dropWhile isspace ?r" by simp
  from starts_with_D [OF m] have s3: "dropWhile isspace ?r = name @ drop (length name) (dropWhile isspace ?r)" .
  have "s = (op @ ?ws @ name) @ drop (length name) (dropWhile isspace ?r)"
    using s1 s2 s3 by (metis append.assoc)
  then have "take n s = take n ((op @ ?ws @ name) @ drop (length name) (dropWhile isspace ?r))"
    and "length (op @ ?ws @ name) \<le> length s"
    by (simp, metis length_append le_add1)
  with n show ?thesis by simp
qed

lemma avoids_op_ws_lit:
  assumes "\<forall>c \<in> set op. \<not> date_char c" and "\<forall>c \<in> set name. \<not> date_char c"
  shows "avoids (op_ws_lit op name)"
  unfolding avoids_def
proof (intro allI impI)
  fix s n assume "op_ws_lit op name s = Some n"
  from op_ws_lit_SomeD [OF this] assms
  show "n \<le> length s \<and> (\<forall>c \<in> set (take n s). \<not> date_char c)"
    by (auto dest: set_takeWhileD isspace_not_date_char)
qed

lemma avoids_op_ws_day:
  assumes "\<forall>c \<in> set op. \<not> date_char c" and "\<forall>c \<in> set fn. \<not> date_char c"
  shows "avoids (op_ws_day op fn)"
  unfolding avoids_def
proof (intro allI impI)
  fix s n assume a: "op_ws_day op fn s = Some n"
  have nd: "\<forall>c \<in> set (fn @ ''(TODAY''). \<not> date_char c"
    using assms(2) by (auto simp: date_char_def isdigit_def)
  from a obtain k where k: "op_ws_lit op (fn @ ''(TODAY'') s = Some k"
    and t: "(starts_with ''())'' (drop k s) \<and> n = k + 3) \<or>
            (starts_with '')'' (drop k s) \<and> n = k + 1)"
    by (auto simp: op_ws_day_def split: option.splits if_splits)
  from op_ws_lit_SomeD [OF k] assms(1) nd
  have kk: "k \<le> length s" "\<forall>c \<in> set (take k s). \<not> date_char c"
    by (auto dest: set_takeWhileD isspace_not_date_char)
  from t show "n \<le> length s \<and> (\<forall>c \<in> set (take n s). \<not> date_char c)"
  proof
    assume c: "starts_with ''())'' (drop k s) \<and> n = k + 3"
    then have e: "take (length ''())'') (drop k s) = ''())''"
        "length ''())'' \<le> length (drop k s)"
      by (simp_all add: starts_with_def)
    from c have "n = k + length ''())''" by simp
    then have "take n s = take k s @ take (length ''())'') (drop k s)"
      by (simp only: take_add)
    with e have "take n s = take k s @ ''())''" by simp
    moreover from e(2) kk(1) c have "n \<le> length s" by simp
    ultimately show ?thesis using kk by (auto simp: date_char_def isdigit_def)
  next
    assume c: "starts_with '')'' (drop k s) \<and> n = k + 1"
    then have e: "take (length '')'') (drop k s) = '')''"
        "length '')'' \<le> length (drop k s)"
      by (simp_all add: starts_with_def)
    from c have "n = k + length '')''" by simp
    then have "take n s = take k s @ take (length '')'') (drop k s)"
      by (simp only: take_add)
    with e have "take n s = take k s @ '')''" by simp
    moreover from e(2) kk(1) c have "n \<le> length s" by simp
    ultimately show ?thesis using kk by (auto simp: date_char_def isdigit_def)
  qed
qed

lemma date_constants_sublist:
  assumes "\<forall>c \<in> set L. date_char c" and "L \<noteq> []" and "sublist L w"
  shows "sublist L (date_constants w)"
proof -
  have a1: "avoids (literal ''TODAY()'')"
    by (rule avoids_literal) (simp add: date_char_def isdigit_def)
  have a2: "avoids (op_ws_lit ''<='' ''THIS_MONTH_END'')"
    by (rule avoids_op_ws_lit) (simp_all add: date_char_def isdigit_def)
  have a3: "avoids (op_ws_lit ''>='' ''THIS_MONTH_START'')"
    by (rule avoids_op_ws_lit) (simp_all add: date_char_def isdigit_def)
  have a4: "avoids (op_ws_day ''<='' ''LAST_DAY'')"
    by (rule avoids_op_ws_day) (simp_all add: date_char_def isdigit_def)
  have a5: "avoids (op_ws_day ''>='' ''FIRST_DAY'')"
    by (rule avoids_op_ws_day) (simp_all add: date_char_def isdigit_def)
  note k = re_sub_sublist [OF _ assms(1,2)]
  show ?thesis
    unfolding date_constants_def Let_def replace_def
    by (intro k a1 a2 a3 a4 a5 assms(3))
qed


lemma iso_date_date_chars:
  assumes "iso_date D"
  shows "\<forall>c \<in> set (quote # D @ [quote]). date_char c"
proof -
  from assms obtain y m d where D: "D = y @ ''-'' @ m @ ''-'' @ d"
    and dg: "digits y" "digits m" "digits d"
    unfolding iso_date_def by blast
  from dg have "\<forall>c \<in> set D. isdigit c \<or> c = CHR ''-''"
    unfolding D by (auto simp: digits_def)
  then show ?thesis by (auto simp: date_char_def)
qed

lemma fix_where_unquotes:
  "unquotes (date_constants w) (fix_where w) \<and> re_search pat_date1 (fix_where w) = None"
  unfolding fix_where_def by (rule unquote_dates_unquotes)

lemma fix_where_keeps_date:
  assumes D: "iso_date D" and q: "sublist (quote # D @ [quote]) w"
  shows "sublist D (fix_where w)"
proof -
  have "sublist (quote # D @ [quote]) (date_constants w)"
  proof (rule date_constants_sublist)
    show "\<forall>c \<in> set (quote # D @ [quote]). date_char c"
      by (rule iso_date_date_chars [OF D])
    show "quote # D @ [quote] \<noteq> []" by simp
    show "sublist (quote # D @ [quote]) w" by (rule q)
  qed
  then obtain a b where "date_constants w = a @ (quote # D @ [quote]) @ b"
    unfolding sublist_def by blast
  then have "date_constants w = (a @ [quote]) @ D @ ([quote] @ b)" by simp
  then have s: "sublist D (date_constants w)"
    unfolding sublist_def by blast
  from iso_date_chars [OF D] have n: "quote \<notin> set D" by simp
  from fix_where_unquotes have u: "unquotes (date_constants w) (fix_where w)" by simp
  show ?thesis by (rule unquotes_sublist [OF u s n])
qed

lemma fix_where_no_quoted_date:
  "iso_date D \<Longrightarrow> \<not> sublist (quote # D @ [quote]) (fix_where w)"
  using fix_where_unquotes [of w] by (intro no_quoted_date) simp_all

lemma where_example:
  "fix_where (''d <= THIS_MONTH_END and e > '2023-1-01' and x=1'') =
     ''d < NEXT_MONTH and e > 2023-1-01 and x=1''"
  by code_simp

section \<open>Facts about the end of the statement\<close>

text \<open>A text that is not empty and does not end in whitespace.\<close>

definition ends_clean :: "string \<Rightarrow> bool" where
  "ends_clean x = (x \<noteq> [] \<and> \<not> isspace (last x))"

lemma strip_ends_clean: "strip s \<noteq> [] \<Longrightarrow> ends_clean (strip s)"
proof -
  assume n: "strip s \<noteq> []"
  let ?t = "dropWhile isspace (rev (dropWhile isspace s))"
  from n have t: "?t \<noteq> []" by (simp add: strip_def)
  then have "\<not> isspace (hd ?t)" by (rule hd_dropWhile)
  moreover have "last (strip s) = hd ?t" by (simp add: strip_def last_rev)
  ultimately show ?thesis using n by (simp add: ends_clean_def)
qed

lemma isspace_not_isword: "isspace c \<Longrightarrow> \<not> isword c"
  by (auto simp: isspace_def whitespace_def isword_def word_chars_upper_half_def)

lemma isdigit_not_isspace: "isdigit c \<Longrightarrow> \<not> isspace c"
  by (auto simp: isspace_def whitespace_def isdigit_def)

lemma kw_ws_run_SomeD: "kw_ws_run kw C s = Some (w, n) \<Longrightarrow> w \<noteq> [] \<and> (\<forall>c \<in> set w. C c)"
  by (auto simp: kw_ws_run_def Let_def split: if_splits dest: set_takeWhileD)

lemma clause_stripped:
  "clause kw stops s = Inr (Some x, r) \<Longrightarrow> x \<noteq> [] \<Longrightarrow> ends_clean x"
  by (auto simp: clause_def Let_def strip_ends_clean split: option.splits prod.splits)

lemma re_sub_ends_clean:
  "ends_clean r \<Longrightarrow> ends_clean w \<Longrightarrow> ends_clean (re_sub m r w)"
proof (induction m r w rule: re_sub.induct)
  case (1 m r)
  then show ?case by (simp add: ends_clean_def)
next
  case (2 m r c cs)
  show ?case
  proof (cases "m (c # cs)")
    case None
    show ?thesis
    proof (cases "cs = []")
      case True
      with None "2.prems" show ?thesis by (simp add: ends_clean_def)
    next
      case False
      with "2.prems" have "ends_clean cs" by (simp add: ends_clean_def)
      from "2.IH"(1) [OF None "2.prems"(1) this] None show ?thesis
        by (simp add: ends_clean_def)
    qed
  next
    case (Some k)
    show ?thesis
    proof (cases k)
      case 0
      show ?thesis
      proof (cases "cs = []")
        case True
        with Some 0 "2.prems" show ?thesis by (simp add: ends_clean_def)
      next
        case False
        with "2.prems" have "ends_clean cs" by (simp add: ends_clean_def)
        from "2.IH"(2) [OF Some 0 "2.prems"(1) this] Some 0 show ?thesis
          by (simp add: ends_clean_def)
      qed
    next
      case (Suc n)
      show ?thesis
      proof (cases "drop n cs = []")
        case True
        with Some Suc "2.prems" show ?thesis by (simp add: ends_clean_def)
      next
        case False
        then have "last (drop n cs) = last (c # cs)" by (auto simp: last_drop)
        with False "2.prems" have "ends_clean (drop n cs)" by (simp add: ends_clean_def)
        from "2.IH"(3) [OF Some Suc "2.prems"(1) this] Some Suc "2.prems"(1) show ?thesis
          by (simp add: ends_clean_def)
      qed
    qed
  qed
qed

lemma date_constants_ends_clean: "ends_clean w \<Longrightarrow> ends_clean (date_constants w)"
proof -
  have r: "ends_clean ''TODAY''" "ends_clean ''< NEXT_MONTH''" "ends_clean ''> LAST_MONTH''"
    by (simp_all add: ends_clean_def isspace_def whitespace_def)
  assume "ends_clean w"
  then show ?thesis
    unfolding date_constants_def Let_def replace_def
    by (intro re_sub_ends_clean r)
qed

lemma unquotes_ends_clean: "unquotes w w' \<Longrightarrow> ends_clean w \<Longrightarrow> ends_clean w'"
proof (induction rule: unquotes.induct)
  case (unquotes_refl w)
  then show ?case .
next
  case (unquotes_step D pre post w')
  from iso_date_chars [OF unquotes_step.hyps(1)] isdigit_not_isspace
  have D: "D \<noteq> []" "\<not> isspace (last D)" by auto
  have "ends_clean (pre @ D @ post)"
  proof (cases "post = []")
    case True
    with D show ?thesis by (simp add: ends_clean_def)
  next
    case False
    with unquotes_step.prems show ?thesis by (simp add: ends_clean_def)
  qed
  then show ?case by (rule unquotes_step.IH)
qed

lemma fix_where_ends_clean: "ends_clean w \<Longrightarrow> ends_clean (fix_where w)"
  using fix_where_unquotes [of w] unquotes_ends_clean date_constants_ends_clean by blast

lemma str_nat_digits: "str_nat n \<noteq> [] \<and> digits (str_nat n)"
proof (induction n rule: str_nat.induct)
  case (1 n)
  have d: "isdigit (''0123456789'' ! k)" if "k < 10" for k
    unfolding isdigit_def using that by (intro nth_mem) simp
  show ?case
  proof (cases "n < 10")
    case True
    with d [of n] show ?thesis by (subst (1 2) str_nat.simps) (simp add: digits_def)
  next
    case False
    with "1.IH" d [of "n mod 10"] show ?thesis
      by (subst (1 2) str_nat.simps) (simp add: digits_def)
  qed
qed

lemma resolve_limit_digits:
  "resolve_limit sql aggregate hard_limit = Some l \<Longrightarrow> l \<noteq> [] \<and> digits l"
proof -
  assume a: "resolve_limit sql aggregate hard_limit = Some l"
  show ?thesis
  proof (cases "re_search (kw_ws_run ''LIMIT'' isdigit) sql")
    case None
    with a have "l = str hard_limit" "0 < hard_limit"
      by (auto simp: resolve_limit_def explicit_limit_def split: if_splits)
    with str_nat_digits [of "nat hard_limit"] show ?thesis by (simp add: str_def)
  next
    case (Some x)
    obtain i d n where x: "x = (i, d, n)" by (cases x)
    with Some a have l: "l = d" by (simp add: resolve_limit_def explicit_limit_def)
    from re_search_Some [of "kw_ws_run ''LIMIT'' isdigit" sql i "(d, n)"] Some x
    have "kw_ws_run ''LIMIT'' isdigit (drop i sql) = Some (d, n)" by simp
    from kw_ws_run_SomeD [OF this] l show ?thesis by (simp add: digits_def)
  qed
qed


lemma ends_clean_append: "ends_clean y \<Longrightarrow> ends_clean (x @ y)"
  by (simp add: ends_clean_def)

lemma parse_sql_InrD:
  assumes "parse_sql sql = Inr c"
  shows "\<exists>s2 i3 n3 s3 s4 s5 s6.
     re_search (kw_ws_run ''FROM'' isword) s2 = Some (i3, c_table c, n3) \<and>
     clause (kw_ws ''WHERE'') [''GROUP'', ''ORDER'', ''LIMIT''] s3 = Inr (c_where c, s4) \<and>
     clause (kw_ws_kw_ws ''GROUP'' ''BY'') [''ORDER'', ''LIMIT''] s4 = Inr (c_groupby c, s5) \<and>
     clause (kw_ws_kw_ws ''ORDER'' ''BY'') [''LIMIT''] s5 = Inr (c_orderby c, s6)"
  using assms
  by (auto simp: parse_sql_def Let_def split: option.splits sum.splits prod.splits) blast+

lemma parse_sql_clean:
  assumes "parse_sql sql = Inr c"
  shows "ends_clean (c_table c)"
    and "c_where c = Some x \<Longrightarrow> x \<noteq> [] \<Longrightarrow> ends_clean x"
    and "c_groupby c = Some x \<Longrightarrow> x \<noteq> [] \<Longrightarrow> ends_clean x"
    and "c_orderby c = Some x \<Longrightarrow> x \<noteq> [] \<Longrightarrow> ends_clean x"
proof -
  from parse_sql_InrD [OF assms] obtain s2 i3 n3 s3 s4 s5 s6 where
    t: "re_search (kw_ws_run ''FROM'' isword) s2 = Some (i3, c_table c, n3)"
    and w: "clause (kw_ws ''WHERE'') [''GROUP'', ''ORDER'', ''LIMIT''] s3 = Inr (c_where c, s4)"
    and g: "clause (kw_ws_kw_ws ''GROUP'' ''BY'') [''ORDER'', ''LIMIT''] s4 = Inr (c_groupby c, s5)"
    and ob: "clause (kw_ws_kw_ws ''ORDER'' ''BY'') [''LIMIT''] s5 = Inr (c_orderby c, s6)"
    by blast
  from re_search_Some [OF t]
  have "kw_ws_run ''FROM'' isword (drop i3 s2) = Some (c_table c, n3)" by simp
  from kw_ws_run_SomeD [OF this] have n: "c_table c \<noteq> []" and a: "\<forall>ch \<in> set (c_table c). isword ch"
    by simp_all
  from n a have "isword (last (c_table c))" by simp
  with isspace_not_isword have "\<not> isspace (last (c_table c))" by blast
  with n show "ends_clean (c_table c)" by (simp add: ends_clean_def)
  show "c_where c = Some x \<Longrightarrow> x \<noteq> [] \<Longrightarrow> ends_clean x"
    using w clause_stripped by metis
  show "c_groupby c = Some x \<Longrightarrow> x \<noteq> [] \<Longrightarrow> ends_clean x"
    using g clause_stripped by metis
  show "c_orderby c = Some x \<Longrightarrow> x \<noteq> [] \<Longrightarrow> ends_clean x"
    using ob clause_stripped by metis
qed

text \<open>The text of the last clause before the limit, as the parser has it.\<close>

definition last_text :: "clauses \<Rightarrow> string" where
  "last_text c =
     (case c_orderby c of
        Some x \<Rightarrow> x
      | None \<Rightarrow>
          (case c_groupby c of
             Some x \<Rightarrow> x
           | None \<Rightarrow> (case c_where c of Some x \<Rightarrow> x | None \<Rightarrow> c_table c)))"

lemma assemble_no_limit:
  assumes p: "parse_sql sql = Inr c"
  shows "\<exists>b. assemble f (c_table c) (map_option fix_where (c_where c))
               (c_groupby c) (c_orderby c) None = b @ '' '' \<and>
             (last_text c \<noteq> [] \<longrightarrow> ends_clean b)"
proof (cases "c_orderby c")
  case (Some x)
  let ?b = "''SELECT '' @ f @ '' '' @ ''FROM '' @ c_table c @ '' '' @
     (case map_option fix_where (c_where c) of None \<Rightarrow> [] | Some w \<Rightarrow> ''WHERE '' @ w @ '' '') @
     (case c_groupby c of None \<Rightarrow> [] | Some g \<Rightarrow> ''GROUP BY '' @ g @ '' '') @
     ''ORDER BY '' @ x"
  have "assemble f (c_table c) (map_option fix_where (c_where c))
          (c_groupby c) (c_orderby c) None = ?b @ '' ''"
    by (simp add: assemble_def Some)
  moreover have "ends_clean ?b" if "x \<noteq> []"
    using parse_sql_clean(4) [OF p Some that] by (simp add: ends_clean_def)
  ultimately show ?thesis using Some by (auto simp: last_text_def)
next
  case ob: None
  show ?thesis
  proof (cases "c_groupby c")
    case (Some x)
    let ?b = "''SELECT '' @ f @ '' '' @ ''FROM '' @ c_table c @ '' '' @
       (case map_option fix_where (c_where c) of None \<Rightarrow> [] | Some w \<Rightarrow> ''WHERE '' @ w @ '' '') @
       ''GROUP BY '' @ x"
    have "assemble f (c_table c) (map_option fix_where (c_where c))
            (c_groupby c) (c_orderby c) None = ?b @ '' ''"
      by (simp add: assemble_def Some ob)
    moreover have "ends_clean ?b" if "x \<noteq> []"
      using parse_sql_clean(3) [OF p Some that] by (simp add: ends_clean_def)
    ultimately show ?thesis using Some ob by (auto simp: last_text_def)
  next
    case g: None
    show ?thesis
    proof (cases "c_where c")
      case (Some x)
      let ?b = "''SELECT '' @ f @ '' '' @ ''FROM '' @ c_table c @ '' '' @ ''WHERE '' @ fix_where x"
      have "assemble f (c_table c) (map_option fix_where (c_where c))
              (c_groupby c) (c_orderby c) None = ?b @ '' ''"
        by (simp add: assemble_def Some ob g)
      moreover have "ends_clean ?b" if "x \<noteq> []"
        using fix_where_ends_clean [OF parse_sql_clean(2) [OF p Some that]]
        by (simp add: ends_clean_def)
      ultimately show ?thesis using Some ob g by (auto simp: last_text_def)
    next
      case w: None
      let ?b = "''SELECT '' @ f @ '' '' @ ''FROM '' @ c_table c"
      have "assemble f (c_table c) (map_option fix_where (c_where c))
              (c_groupby c) (c_orderby c) None = ?b @ '' ''"
        by (simp add: assemble_def w ob g)
      moreover have "ends_clean ?b"
        using parse_sql_clean(1) [OF p] by (simp add: ends_clean_def)
      ultimately show ?thesis by blast
    qed
  qed
qed

lemma assemble_limit:
  "assemble f t w g ob (Some l) = assemble f t w g ob None @ ''LIMIT '' @ l"
  by (simp add: assemble_def)

section \<open>Facts about the limit\<close>
















section \<open>Facts about the text of the clauses\<close>

lemma strip_sublist: "sublist (strip s) s"
proof -
  let ?t = "dropWhile isspace s"
  have "sublist (rev (dropWhile isspace (rev ?t))) (rev (rev ?t))"
    unfolding sublist_rev by (rule sublist_dropWhile)
  then have "sublist (strip s) ?t" by (simp add: strip_def)
  moreover have "sublist ?t s" by (rule sublist_dropWhile)
  ultimately show ?thesis by (rule sublist_order.order_trans)
qed

lemma clause_sublist: "clause kw stops s = Inr (Some x, r) \<Longrightarrow> sublist x s"
proof -
  assume "clause kw stops s = Inr (Some x, r)"
  then obtain a b where x: "x = strip (take a (drop b s))"
    by (auto simp: clause_def Let_def split: option.splits prod.splits)
  have "sublist (take a (drop b s)) s"
    using sublist_take [of a "drop b s"] sublist_drop [of b s] by (rule sublist_order.order_trans)
  with strip_sublist [of "take a (drop b s)"] show ?thesis
    unfolding x by (rule sublist_order.order_trans)
qed

lemma parse_sql_where_sublist:
  assumes "parse_sql sql = Inr c" and "c_where c = Some w"
  shows "sublist w sql"
proof -
  from assms(1) obtain k3 s4 x where
    "clause (kw_ws ''WHERE'') [''GROUP'', ''ORDER'', ''LIMIT''] (drop k3 sql) = Inr (x, s4)"
    and "c_where c = x"
    by (auto simp: parse_sql_def Let_def split: option.splits sum.splits prod.splits)
  with assms(2) have "clause (kw_ws ''WHERE'') [''GROUP'', ''ORDER'', ''LIMIT''] (drop k3 sql) =
      Inr (Some w, s4)" by simp
  then have "sublist w (drop k3 sql)" by (rule clause_sublist)
  then show ?thesis using sublist_drop [of k3 sql] by (rule sublist_order.order_trans)
qed

section \<open>Results\<close>

subsection \<open>C1: the aggregate query with an alias\<close>

text \<open>
  The claim C1 as the spec states it fails: the statement returned for the second test
  query is not the one with \<open>Max(a1) cmax\<close> and no trailing space.
\<close>

theorem C1_counterexample:
  "returned (sql2soql query2 account_schema True 4 account_store) \<noteq>
     Inr (''SELECT Max(a1) cmax FROM Account WHERE Name='Fred' GROUP BY firstname ORDER BY cmax DESC'',
          ''Account'')"
  using query2_value [of True 4] by simp

text \<open>
  C1, amended.  For the query
  \<open>SELECT Max(a1) cmax FROM Account WHERE Name='Fred' Group BY firstname order by cmax DESC\<close>
  with the schema \<open>{Account: [Id, a1, a2, a3, OwnerId]}\<close>, whatever the flags, the
  translator returns
  \<open>SELECT Max(a1) FROM Account WHERE Name='Fred' GROUP BY firstname ORDER BY cmax DESC \<close>
  with the space after the last clause: the query is an aggregate, \<open>Max(a1)\<close> is
  kept, the alias \<open>cmax\<close> is removed from the field list as a column the schema does
  not know, and no \<open>LIMIT\<close> is added.
\<close>

theorem C1_aggregate_alias_pruned:
  "returned (sql2soql query2 account_schema add_id hard_limit account_store) =
     Inr (''SELECT Max(a1) FROM Account WHERE Name='Fred' GROUP BY firstname ORDER BY cmax DESC '',
          ''Account'')"
  by (rule query2_value)

subsection \<open>C2: the caller's schema\<close>

text \<open>
  C2 (the call never changes a column list of the caller's schema) does not hold of the
  code.  For \<open>SELECT * FROM T\<close> with the schema \<open>{T: [a]}\<close> and \<open>add_id\<close>,
  \<open>list_fields\<close> is the schema's own list, and \<open>list_fields.append('Id')\<close> changes
  it: after the call the caller's list is \<open>[a, Id]\<close>.
\<close>

theorem C2_schema_list_mutated:
  "map_option (\<lambda>s. cells s 0)
     (store_after (sql2soql ''SELECT * FROM T'' [''T'' \<mapsto> 0] True 0
        \<lparr>cells = (\<lambda>_. [])(0 := [''a'']), nxt = 1\<rparr>)) = Some [''a'', ''Id'']"
  by code_simp

subsection \<open>C3: unknown columns\<close>

text \<open>
  C3 (after the fixup every field without a parenthesis is a column of the schema) does
  not hold of the code.  For \<open>SELECT x, y FROM Account\<close> the loop removes \<open>x\<close>, the
  list moves down under the iterator, and \<open>y\<close> is never looked at: it stays in the
  field list and in the statement.
\<close>

theorem C3_unknown_column_survives:
  "returned (sql2soql ''SELECT x, y FROM Account'' account_schema True 4 account_store) =
     Inr (''SELECT y, Id, OwnerId FROM Account LIMIT 4'', ''Account'')"
  by code_simp

subsection \<open>C4: the limit\<close>




subsection \<open>C9: statements without \<open>SELECT\<close> or \<open>FROM\<close>\<close>

text \<open>
  C9.  When \<open>select\s+\<close> or \<open>from\s+\<close> (ignoring case) is found nowhere in the
  input, the call raises: the failure is that of the parser, before any heuristic runs,
  and nothing is returned.
\<close>

theorem C9_malformed_statement:
  assumes "\<not> found (kw_ws ''select'') sql \<or> \<not> found (kw_ws ''from'') sql"
  shows "parse_sql sql = Inl AttributeError \<and>
         sql2soql sql table2columns add_id hard_limit s = Inl AttributeError"
  using assms parse_sql_no_select [of sql] parse_sql_no_from [of sql]
  by (auto simp: sql2soql_def)

theorem C9_witness:
  "\<not> found (kw_ws ''select'') ''DELETE FROM t'' \<and>
   sql2soql ''DELETE FROM t'' account_schema True 4 account_store = Inl AttributeError"
proof -
  have h: "\<not> found (kw_ws ''select'') ''DELETE FROM t''" by code_simp
  from C9_malformed_statement [OF disjI1 [OF h]] h show ?thesis by simp
qed

subsection \<open>C5: \<open>SELECT *\<close> on a table of the schema\<close>

text \<open>
  C5 (for \<open>SELECT *\<close> on a table of the schema the field list is exactly the
  schema's columns, also for a schema without \<open>Id\<close>) does not hold of the code.  For
  \<open>SELECT * FROM T\<close> with the schema \<open>{T: [a]}\<close> and \<open>add_id\<close> the statement
  selects \<open>a, Id\<close>.  Line 127 makes \<open>list_fields\<close> the schema's own list, so the
  \<open>Id\<close> that line 140 appends is a member of \<open>cols\<close> when the pruning of lines 151
  to 159 looks for it, and it stays.  The same \<open>Id\<close>, forced on the explicit
  \<open>SELECT a FROM T\<close>, is in a list of its own and is pruned: there the field list is
  the schema's \<open>a\<close>.  The slip is that of C2.
\<close>

theorem C5_wildcard_keeps_forced_id:
  "returned (sql2soql ''SELECT * FROM T'' [''T'' \<mapsto> 0] True 0
               \<lparr>cells = (\<lambda>_. [])(0 := [''a'']), nxt = 1\<rparr>) =
     Inr (''SELECT a, Id FROM T '', ''T'') \<and>
   returned (sql2soql ''SELECT a FROM T'' [''T'' \<mapsto> 0] True 0
               \<lparr>cells = (\<lambda>_. [])(0 := [''a'']), nxt = 1\<rparr>) =
     Inr (''SELECT a FROM T '', ''T'')"
  by code_simp

subsection \<open>C6: the columns whose name ends in \<open>Id\<close>\<close>

text \<open>
  C6 as the spec states it fails when \<open>add_id\<close> is not set: line 143 tests \<open>add_id\<close>
  too.  For \<open>SELECT a1 FROM Account\<close> without \<open>add_id\<close> the schema's \<open>OwnerId\<close> is
  not appended.
\<close>

theorem C6_counterexample:
  "returned (sql2soql ''SELECT a1 FROM Account'' account_schema False 0 account_store) =
     Inr (''SELECT a1 FROM Account '', ''Account'') \<and>
   map_option (\<lambda>s. cells s (nxt account_store))
     (store_after (sql2soql ''SELECT a1 FROM Account'' account_schema False 0 account_store)) =
     Some [''a1''] \<and>
   ''OwnerId'' \<in> set (cells account_store 0) \<and> endswith ''OwnerId'' ''Id''"
  by code_simp

text \<open>
  C6, amended.  For a query that is no aggregate on a table of the schema, when
  \<open>add_id\<close> is set: every column of the schema whose name ends in \<open>Id\<close> or \<open>Id__c\<close>
  is in the field list \<open>l\<close> after the fixup, from which the field text is built; and
  unless the field text was \<open>*\<close>, the list ends with exactly those of them that were
  not in the field list (with its forced \<open>Id\<close>) before, each once, after what is kept
  of the earlier entries.
\<close>

theorem C6_id_columns_when_forced:
  assumes p: "parse_sql sql = Inr c" and na: "\<not> c_aggregate c"
    and t: "table2columns (c_table c) = Some a" and a: "a < nxt s"
  shows "\<exists>fields_s l s'.
     sql2soql sql table2columns True hard_limit s =
       Inr ((assemble fields_s (c_table c) (map_option fix_where (c_where c))
               (c_groupby c) (c_orderby c) (resolve_limit (c_sql c) False hard_limit),
             c_table c), s') \<and>
     fields_s = join '', '' (cells s' l) \<and>
     (\<forall>f \<in> set (cells s a).
        endswith f ''Id'' \<or> endswith f ''Id__c'' \<longrightarrow> f \<in> set (cells s' l)) \<and>
     (c_fields c \<noteq> ''*'' \<longrightarrow>
        (\<exists>kept new.
           cells s' l = kept @ new \<and> set kept \<subseteq> set (c_list_fields c) \<union> {''Id''} \<and>
           distinct new \<and>
           set new = {f \<in> set (cells s a).
                        (endswith f ''Id'' \<or> endswith f ''Id__c'') \<and>
                        f \<notin> set (c_list_fields c) \<and> f \<noteq> ''Id''}))"
proof (cases "c_fields c = ''*''")
  case True
  from a have h: "((cells s)(nxt s := c_list_fields c)) a = cells s a" by simp
  show ?thesis
    apply (rule exI [of _ "join '', '' (cells s a @ (if ''Id'' \<notin> set (cells s a) then [''Id''] else []))"])
    apply (rule exI [of _ a])
    using na a by (simp add: sql2soql_def p True fix_fields_star_known [of table2columns "c_table c" a, OF t])
next
  case False
  let ?h = "(cells s)(nxt s := c_list_fields c)"
  define L where "L = c_list_fields c @ (if ''Id'' \<in> set (c_list_fields c) then [] else [''Id''])"
  define kept where "kept = pruned 0 (cells s a) L"
  define new where "new = id_new L (cells s a)"
  from a have l: "nxt s \<noteq> a" by simp
  from a have h: "?h a = cells s a" "?h (nxt s) = c_list_fields c" by simp_all
  from fix_fields_forced_known [of table2columns "c_table c" a "nxt s" "c_fields c" ?h, OF t l False]
  obtain f' where ff: "fix_fields table2columns (c_table c) False True (c_fields c, nxt s, ?h) =
      (f', nxt s, ?h(nxt s := kept @ new))" and f': "f' = join '', '' (kept @ new)"
    unfolding h L_def kept_def new_def by blast
  have k: "set kept \<subseteq> set (c_list_fields c) \<union> {''Id''}"
    using set_pruned [of 0 "cells s a" L] unfolding kept_def L_def by (auto split: if_splits)
  have d: "distinct new" unfolding new_def by (rule distinct_id_new)
  have n: "set new = {f \<in> set (cells s a).
                        (endswith f ''Id'' \<or> endswith f ''Id__c'') \<and>
                        f \<notin> set (c_list_fields c) \<and> f \<noteq> ''Id''}"
    unfolding new_def set_id_new L_def by auto
  have m: "\<forall>f \<in> set (cells s a).
        endswith f ''Id'' \<or> endswith f ''Id__c'' \<longrightarrow> f \<in> set (kept @ new)"
  proof (intro ballI impI)
    fix x assume x: "x \<in> set (cells s a)" "endswith x ''Id'' \<or> endswith x ''Id__c''"
    show "x \<in> set (kept @ new)"
    proof (cases "x \<in> set L")
      case True
      let ?g = "(\<lambda>_. [])(0 := cells s a, 1 := L)"
      from prune_loop_keeps [of 1 0 x ?g 0] True x
      have "x \<in> set (prune_loop 0 0 1 ?g 1)" by simp
      then have "x \<in> set kept"
        unfolding kept_def by (simp add: prune_loop_pruned)
      then show ?thesis by simp
    next
      case False
      with x have "x \<in> set new" unfolding new_def set_id_new by simp
      then show ?thesis by simp
    qed
  qed
  show ?thesis
    apply (rule exI [of _ f'])
    apply (rule exI [of _ "nxt s"])
    using na k d n m False
    by (simp add: sql2soql_def p ff f') blast
qed

theorem C6_witness:
  "parse_sql ''select a1 from Account'' =
     Inr \<lparr>c_fields = ''a1'', c_list_fields = [''a1''], c_aggregate = False,
          c_table = ''Account'', c_where = None, c_groupby = None, c_orderby = None,
          c_sql = []\<rparr> \<and>
   account_schema ''Account'' = Some 0 \<and> 0 < nxt account_store \<and>
   (\<exists>fields_s l s'.
      sql2soql ''select a1 from Account'' account_schema True 0 account_store =
        Inr ((assemble fields_s ''Account'' None None None None, ''Account''), s') \<and>
      fields_s = join '', '' (cells s' l) \<and> ''OwnerId'' \<in> set (cells s' l))"
proof -
  have h: "parse_sql ''select a1 from Account'' =
     Inr \<lparr>c_fields = ''a1'', c_list_fields = [''a1''], c_aggregate = False,
          c_table = ''Account'', c_where = None, c_groupby = None, c_orderby = None,
          c_sql = []\<rparr>"
    by code_simp
  have t: "account_schema ''Account'' = Some 0" by (simp add: account_schema_def)
  have n: "0 < nxt account_store" by (simp add: account_store_def)
  have l: "resolve_limit [] False 0 = None" by code_simp
  have e: "endswith ''OwnerId'' ''Id''" by code_simp
  have o: "''OwnerId'' \<in> set (cells account_store 0)" by (simp add: account_store_def)
  from C6_id_columns_when_forced
         [of "''select a1 from Account''" _ account_schema 0 account_store 0, OF h _ _ n] t
  obtain fields_s l s' where
    r: "sql2soql ''select a1 from Account'' account_schema True 0 account_store =
          Inr ((assemble fields_s ''Account'' None None None (resolve_limit [] False 0),
                ''Account''), s')"
       "fields_s = join '', '' (cells s' l)"
       "\<forall>f \<in> set (cells account_store 0).
          endswith f ''Id'' \<or> endswith f ''Id__c'' \<longrightarrow> f \<in> set (cells s' l)"
    by auto
  from r(3) e o have "''OwnerId'' \<in> set (cells s' l)" by blast
  with r(1,2) h t n l show ?thesis by auto
qed

subsection \<open>C8: no \<open>*\<close> in the field list\<close>

text \<open>
  C8 as the spec states it fails: only a field text that is exactly \<open>*\<close> is expanded.
  For \<open>SELECT *, name FROM t\<close> (no schema for \<open>t\<close>) the field list after the fixup
  and the statement keep the entry \<open>*\<close>.
\<close>

theorem C8_counterexample:
  "returned (sql2soql ''SELECT *, name FROM t'' account_schema False 0 account_store) =
     Inr (''SELECT *, name FROM t '', ''t'') \<and>
   map_option (\<lambda>s. cells s (nxt account_store))
     (store_after (sql2soql ''SELECT *, name FROM t'' account_schema False 0 account_store)) =
     Some [''*'', ''name'']"
  by code_simp

text \<open>
  C8, amended.  When the field text is exactly \<open>*\<close>, the field text of the statement
  has no entry \<open>*\<close>: for a table without a schema it is the marker \<open>FIELDS(ALL)\<close>
  (the list \<open>list_fields\<close> still holds \<open>*\<close> then, and is not used); for a table of
  the schema it is built from the schema's column list, which has an entry \<open>*\<close> only
  if the caller's schema has one.
\<close>

theorem C8_star_alone:
  assumes p: "parse_sql sql = Inr c" and f: "c_fields c = ''*''"
  shows "\<exists>fields_s s'.
     sql2soql sql table2columns add_id hard_limit s =
       Inr ((assemble fields_s (c_table c) (map_option fix_where (c_where c))
               (c_groupby c) (c_orderby c) (resolve_limit (c_sql c) False hard_limit),
             c_table c), s') \<and>
     (case table2columns (c_table c) of
        None \<Rightarrow> fields_s = ''FIELDS(ALL)''
      | Some a \<Rightarrow>
          a < nxt s \<longrightarrow>
          fields_s = join '', '' (cells s' a) \<and>
          (''*'' \<notin> set (cells s a) \<longrightarrow> ''*'' \<notin> set (cells s' a)))"
proof -
  have na: "c_aggregate c = False"
    using parse_sql_fields [OF p] unfolding f star_no_aggregate by simp
  show ?thesis
  proof (cases "table2columns (c_table c)")
    case None
    then show ?thesis
      by (simp add: sql2soql_def p f na fix_fields_star_unknown [of table2columns "c_table c", OF None])
  next
    case (Some a)
    show ?thesis
      by (auto simp: sql2soql_def p f na fix_fields_star_known [of table2columns "c_table c" a, OF Some] Some)
  qed
qed

theorem C8_witness:
  "parse_sql ''select * from Task'' =
     Inr \<lparr>c_fields = ''*'', c_list_fields = [''*''], c_aggregate = False, c_table = ''Task'',
          c_where = None, c_groupby = None, c_orderby = None, c_sql = []\<rparr> \<and>
   (\<exists>s'. sql2soql ''select * from Task'' account_schema True 0 account_store =
            Inr ((''SELECT FIELDS(ALL) FROM Task '', ''Task''), s'))"
proof -
  have h: "parse_sql ''select * from Task'' =
     Inr \<lparr>c_fields = ''*'', c_list_fields = [''*''], c_aggregate = False, c_table = ''Task'',
          c_where = None, c_groupby = None, c_orderby = None, c_sql = []\<rparr>"
    by code_simp
  have l: "resolve_limit [] False 0 = None" by code_simp
  from C8_star_alone [of "''select * from Task''" _ account_schema True 0 account_store, OF h] h l
  show ?thesis by (auto simp: account_schema_def assemble_def)
qed

subsection \<open>C7: quoted dates in the \<open>WHERE\<close> clause\<close>

text \<open>
  C7 as the spec states it fails for dates outside the text that the parser takes for
  the \<open>WHERE\<close> clause.  In \<open>select a from t where OrderDate > '2023-01-01'\<close> that
  text stops at the letters \<open>Order\<close> of \<open>OrderDate\<close> (line 83) and is empty: the
  statement is \<open>SELECT a FROM t WHERE\<close> and two spaces, and the date is not in it,
  with quotes or without.  In \<open>select a from t order by '2023-01-01' desc\<close> the
  quoted date stands in the \<open>ORDER BY\<close> clause, which lines 161 to 177 never read: it
  is in the result between its quotes.
\<close>

theorem C7_counterexample:
  "returned (sql2soql (''select a from t where OrderDate > '2023-01-01'' @ [quote])
               account_schema False 0 account_store) =
     Inr (''SELECT a FROM t WHERE  '', ''t'') \<and>
   returned (sql2soql ''select a from t order by '2023-01-01' desc''
               account_schema False 0 account_store) =
     Inr (''SELECT a FROM t ORDER BY '2023-01-01' desc '', ''t'')"
  by code_simp

text \<open>
  C7, amended.  Whenever the parser takes a text \<open>w\<close> for the \<open>WHERE\<close> clause, \<open>w\<close>
  is a piece of the input, the statement carries \<open>fix_where w\<close> as its \<open>WHERE\<close>
  clause, and: every date that stands between quotes somewhere in \<open>w\<close> stands in the
  output clause, character for character; no date between quotes is left anywhere in
  the output clause; and the output clause comes from the clause with its
  pseudo-constants rewritten by taking, one date after the other, both quotes off a
  quoted date and nothing else, so that no date is left with one quote of its own.
  Nothing is said of a date outside \<open>w\<close>.
\<close>

theorem C7_dates_unquoted:
  assumes p: "parse_sql sql = Inr c" and w: "c_where c = Some w"
  shows "\<exists>fields_s s'.
     sql2soql sql table2columns add_id hard_limit s =
       Inr ((assemble fields_s (c_table c) (Some (fix_where w)) (c_groupby c) (c_orderby c)
               (resolve_limit (c_sql c) (c_aggregate c) hard_limit),
             c_table c), s') \<and>
     (\<forall>D. iso_date D \<and> sublist (quote # D @ [quote]) w \<longrightarrow> sublist D (fix_where w)) \<and>
     (\<forall>D. iso_date D \<longrightarrow> \<not> sublist (quote # D @ [quote]) (fix_where w)) \<and>
     unquotes (date_constants w) (fix_where w) \<and>
     sublist w sql"
proof -
  obtain f l h where ff: "fix_fields table2columns (c_table c) (c_aggregate c) add_id
      (c_fields c, nxt s, (cells s)(nxt s := c_list_fields c)) = (f, l, h)"
    using prod_cases3 by blast
  have r: "sql2soql sql table2columns add_id hard_limit s =
       Inr ((assemble f (c_table c) (Some (fix_where w)) (c_groupby c) (c_orderby c)
               (resolve_limit (c_sql c) (c_aggregate c) hard_limit),
             c_table c), \<lparr>cells = h, nxt = Suc (nxt s)\<rparr>)"
    by (simp add: sql2soql_def p w ff del: fun_upd_apply)
  have a: "\<forall>D. iso_date D \<and> sublist (quote # D @ [quote]) w \<longrightarrow> sublist D (fix_where w)"
    by (intro allI impI) (erule conjE, rule fix_where_keeps_date)
  have b: "\<forall>D. iso_date D \<longrightarrow> \<not> sublist (quote # D @ [quote]) (fix_where w)"
    by (intro allI impI fix_where_no_quoted_date)
  have c: "unquotes (date_constants w) (fix_where w)"
    by (rule conjunct1 [OF fix_where_unquotes])
  have d: "sublist w sql"
    using p w by (rule parse_sql_where_sublist)
  show ?thesis
    by (rule exI, rule exI, intro conjI, rule r, rule a, rule b, rule c, rule d)
qed

theorem C7_witness:
  "parse_sql (''select a from t where d <= THIS_MONTH_END and e > '2023-1-01' and x=1'') =
     Inr \<lparr>c_fields = ''a'', c_list_fields = [''a''], c_aggregate = False, c_table = ''t'',
          c_where = Some (''d <= THIS_MONTH_END and e > '2023-1-01' and x=1''),
          c_groupby = None, c_orderby = None, c_sql = []\<rparr> \<and>
   iso_date ''2023-1-01'' \<and>
   sublist (quote # ''2023-1-01'' @ [quote])
     (''d <= THIS_MONTH_END and e > '2023-1-01' and x=1'') \<and>
   sublist ''2023-1-01'' (''d < NEXT_MONTH and e > 2023-1-01 and x=1'') \<and>
   \<not> sublist (quote # ''2023-1-01'' @ [quote]) (''d < NEXT_MONTH and e > 2023-1-01 and x=1'') \<and>
   (\<exists>fields_s s'.
      sql2soql (''select a from t where d <= THIS_MONTH_END and e > '2023-1-01' and x=1'')
        account_schema False 0 account_store =
      Inr ((assemble fields_s ''t'' (Some ''d < NEXT_MONTH and e > 2023-1-01 and x=1'')
              None None None, ''t''), s'))"
proof -
  let ?w = "''d <= THIS_MONTH_END and e > '2023-1-01' and x=1''"
  have h: "parse_sql (''select a from t where d <= THIS_MONTH_END and e > '2023-1-01' and x=1'') =
     Inr \<lparr>c_fields = ''a'', c_list_fields = [''a''], c_aggregate = False, c_table = ''t'',
          c_where = Some ?w, c_groupby = None, c_orderby = None, c_sql = []\<rparr>"
    by code_simp
  have i: "iso_date ''2023-1-01''"
    unfolding iso_date_def
    by (intro exI [of _ "''2023''"] exI [of _ "''1''"] exI [of _ "''01''"])
       (simp add: digits_def isdigit_def)
  have q: "sublist (quote # ''2023-1-01'' @ [quote]) ?w"
    unfolding sublist_def
    by (intro exI [of _ "''d <= THIS_MONTH_END and e > ''"] exI [of _ "'' and x=1''"]) simp
  have l: "resolve_limit [] False 0 = None" by code_simp
  from C7_dates_unquoted
         [of "''select a from t where d <= THIS_MONTH_END and e > '2023-1-01' and x=1''" _ ?w
             account_schema False 0 account_store, OF h]
  obtain fields_s s' where
    r: "sql2soql (''select a from t where d <= THIS_MONTH_END and e > '2023-1-01' and x=1'')
          account_schema False 0 account_store =
        Inr ((assemble fields_s ''t'' (Some (fix_where ?w)) None None (resolve_limit [] False 0),
              ''t''), s')"
    and k: "\<forall>D. iso_date D \<and> sublist (quote # D @ [quote]) ?w \<longrightarrow> sublist D (fix_where ?w)"
    and n: "\<forall>D. iso_date D \<longrightarrow> \<not> sublist (quote # D @ [quote]) (fix_where ?w)"
    by auto
  from k i q have a: "sublist ''2023-1-01'' (fix_where ?w)" by blast
  from n i have b: "\<not> sublist (quote # ''2023-1-01'' @ [quote]) (fix_where ?w)" by blast
  from r have c: "\<exists>fields_s s'.
      sql2soql (''select a from t where d <= THIS_MONTH_END and e > '2023-1-01' and x=1'')
        account_schema False 0 account_store =
      Inr ((assemble fields_s ''t'' (Some (fix_where ?w)) None None None, ''t''), s')"
    unfolding l by blast
  show ?thesis
    by (intro conjI, rule h, rule i, rule q, rule a [unfolded where_example],
        rule b [unfolded where_example], rule c [unfolded where_example])
qed

subsection \<open>C10: the end of the statement\<close>

text \<open>
  C10 as stated fails where it says \<open>a single trailing space\<close>: a clause whose text is
  empty leaves two.  For \<open>select a from t where \<close> the statement is
  \<open>SELECT a FROM t WHERE\<close> followed by two spaces, and no \<open>LIMIT\<close> is emitted.
\<close>

theorem C10_counterexample:
  "returned (sql2soql ''select a from t where '' account_schema False 0 account_store) =
     Inr (''SELECT a FROM t WHERE  '', ''t'') \<and>
   \<not> ends_clean (butlast ''SELECT a FROM t WHERE  '')"
  by code_simp

text \<open>
  C10, amended.  For every successful translation: when no \<open>LIMIT\<close> clause is emitted
  the statement ends with a space, and what stands before that space is not empty and
  does not end in whitespace (the space is the one trailing space) whenever the text
  of the last clause is not empty; when a \<open>LIMIT\<close> clause is emitted the statement
  ends with \<open>LIMIT\<close>, a space and the digits of the limit, and its last character is
  no whitespace.
\<close>

theorem C10_statement_end:
  assumes p: "parse_sql sql = Inr c"
  shows "\<exists>r s'.
     sql2soql sql table2columns add_id hard_limit s = Inr ((r, c_table c), s') \<and>
     (case resolve_limit (c_sql c) (c_aggregate c) hard_limit of
        None \<Rightarrow> \<exists>b. r = b @ '' '' \<and> (last_text c \<noteq> [] \<longrightarrow> ends_clean b)
      | Some l \<Rightarrow>
          l \<noteq> [] \<and> digits l \<and> (\<exists>b. r = b @ ''LIMIT '' @ l) \<and> \<not> isspace (last r))"
proof -
  obtain f l h where ff: "fix_fields table2columns (c_table c) (c_aggregate c) add_id
      (c_fields c, nxt s, (cells s)(nxt s := c_list_fields c)) = (f, l, h)"
    using prod_cases3 by blast
  let ?lim = "resolve_limit (c_sql c) (c_aggregate c) hard_limit"
  let ?r = "assemble f (c_table c) (map_option fix_where (c_where c))
              (c_groupby c) (c_orderby c) ?lim"
  have r: "sql2soql sql table2columns add_id hard_limit s =
       Inr ((?r, c_table c), \<lparr>cells = h, nxt = Suc (nxt s)\<rparr>)"
    by (simp add: sql2soql_def p ff del: fun_upd_apply)
  have "case ?lim of
        None \<Rightarrow> \<exists>b. ?r = b @ '' '' \<and> (last_text c \<noteq> [] \<longrightarrow> ends_clean b)
      | Some l \<Rightarrow>
          l \<noteq> [] \<and> digits l \<and> (\<exists>b. ?r = b @ ''LIMIT '' @ l) \<and> \<not> isspace (last ?r)"
  proof (cases ?lim)
    case None
    with assemble_no_limit [OF p, of f] show ?thesis by simp
  next
    case (Some d)
    from resolve_limit_digits [OF Some] have d: "d \<noteq> []" "digits d" by simp_all
    then have "isdigit (last d)" by (simp add: digits_def)
    with isdigit_not_isspace have "\<not> isspace (last d)" by blast
    with d have "\<not> isspace (last ?r)" by (simp add: Some assemble_limit)
    with d Some show ?thesis by (auto simp: assemble_limit)
  qed
  with r show ?thesis by blast
qed

theorem C10_witness:
  "parse_sql ''select a from t'' =
     Inr \<lparr>c_fields = ''a'', c_list_fields = [''a''], c_aggregate = False, c_table = ''t'',
          c_where = None, c_groupby = None, c_orderby = None, c_sql = []\<rparr> \<and>
   (\<exists>b s'. sql2soql ''select a from t'' account_schema False 0 account_store =
             Inr ((b @ '' '', ''t''), s') \<and> ends_clean b)"
proof -
  let ?c = "\<lparr>c_fields = ''a'', c_list_fields = [''a''], c_aggregate = False, c_table = ''t'',
          c_where = None, c_groupby = None, c_orderby = None, c_sql = []\<rparr>"
  have h: "parse_sql ''select a from t'' = Inr ?c"
    by code_simp
  have l: "resolve_limit [] False 0 = None" by code_simp
  have t: "last_text ?c \<noteq> []" by (simp add: last_text_def)
  from C10_statement_end [OF h, of account_schema False 0 account_store]
  obtain r s' where r: "sql2soql ''select a from t'' account_schema False 0 account_store =
      Inr ((r, ''t''), s')"
    and e: "\<exists>b. r = b @ '' '' \<and> (last_text ?c \<noteq> [] \<longrightarrow> ends_clean b)"
    by (auto simp: l)
  from e t obtain b where "r = b @ '' ''" "ends_clean b" by blast
  with r have "\<exists>b s'. sql2soql ''select a from t'' account_schema False 0 account_store =
             Inr ((b @ '' '', ''t''), s') \<and> ends_clean b"
    by blast
  then show ?thesis by (intro conjI) (rule h)
qed

end
